theory Spec2Isabelle
  imports Main "HOL-Library.Word" "HOL-Library.List_Lexorder"
begin

section \<open>Go values used by the cznicb store\<close>

text \<open>
  A Go \<^verbatim>\<open>[]byte\<close> is either the nil slice or a slice with contents: \<open>None\<close> is nil,
  \<open>Some xs\<close> is a non-nil slice holding \<open>xs\<close> (\<open>Some []\<close> is the empty, non-nil slice).
\<close>

type_synonym byte = "8 word"
type_synonym bytes = "byte list option"

fun raw :: "bytes \<Rightarrow> byte list" where
  "raw None = []"
| "raw (Some xs) = xs"

text \<open>
  An \<^verbatim>\<open>interface{}\<close> of this package holds nothing (the nil interface) or a
  \<^verbatim>\<open>[]byte\<close>. An interface holding the nil slice is not the nil interface: the
  comparison \<^verbatim>\<open>v == nil\<close> on an interface is \<open>v = nil_iface\<close>.
\<close>

datatype iface = nil_iface | bytes_iface bytes

datatype error = iteratorDoneErr | io_EOF | OperErr string

datatype panic = NilMapAssign | IndexOutOfRange | NilDeref | InterfaceConversion

text \<open>The type assertion \<^verbatim>\<open>v.([]byte)\<close>: it panics on the nil interface.\<close>

fun assert_bytes :: "iface \<Rightarrow> panic + bytes" where
  "assert_bytes (bytes_iface b) = Inr b"
| "assert_bytes nil_iface = Inl InterfaceConversion"

text \<open>
  \<^verbatim>\<open>bytes.Compare\<close> of the Go library: lexicographic on unsigned bytes, a proper prefix is
  smaller, the result is -1, 0 or 1, and a nil argument counts as the empty slice.
\<close>

fun bytes_Compare :: "byte list \<Rightarrow> byte list \<Rightarrow> int" where
  "bytes_Compare [] [] = 0"
| "bytes_Compare [] (y # ys) = - 1"
| "bytes_Compare (x # xs) [] = 1"
| "bytes_Compare (x # xs) (y # ys) =
     (if x < y then - 1 else if y < x then 1 else bytes_Compare xs ys)"

definition itemCompare :: "bytes \<Rightarrow> bytes \<Rightarrow> int" where
  "itemCompare a b = bytes_Compare (raw a) (raw b)"

section \<open>The ordered map\<close>

text \<open>
  Modelled from the spec: the \<^verbatim>\<open>b.Tree\<close> ordered map and its \<^verbatim>\<open>b.Enumerator\<close> cursor
  (package \<^verbatim>\<open>github.com/cznic/b\<close>) are not part of the sources. The spec gives their
  contract: unique keys kept in the order of the injected comparison, insert-or-replace,
  delete, point lookup, a cursor seeked to the first key at or after a given key, and a
  cursor step returning key, value and a done condition. The map is a list of entries in
  strictly ascending key order; the comparison is \<open>itemCompare\<close>, as \<^verbatim>\<open>StoreConstructor\<close>
  injects it.
\<close>

type_synonym Tree = "(bytes \<times> bytes) list"

definition TreeNew :: Tree where
  "TreeNew = []"

fun Tree_Get :: "Tree \<Rightarrow> bytes \<Rightarrow> iface \<times> bool" where
  "Tree_Get [] k = (nil_iface, False)"
| "Tree_Get ((k', v') # tr) k =
     (if itemCompare k k' = 0 then (bytes_iface v', True) else Tree_Get tr k)"

fun Tree_Set :: "Tree \<Rightarrow> bytes \<Rightarrow> bytes \<Rightarrow> Tree" where
  "Tree_Set [] k v = [(k, v)]"
| "Tree_Set ((k', v') # tr) k v =
     (if itemCompare k k' = 0 then (k', v) # tr
      else if itemCompare k k' < 0 then (k, v) # (k', v') # tr
      else (k', v') # Tree_Set tr k v)"

fun Tree_Delete :: "Tree \<Rightarrow> bytes \<Rightarrow> Tree" where
  "Tree_Delete [] k = []"
| "Tree_Delete ((k', v') # tr) k =
     (if itemCompare k k' = 0 then tr else (k', v') # Tree_Delete tr k)"

text \<open>The map's invariant: keys strictly ascending in the comparison order.\<close>

definition tree_inv :: "Tree \<Rightarrow> bool" where
  "tree_inv tr = sorted_wrt (\<lambda>a b. itemCompare (fst a) (fst b) < 0) tr"

text \<open>
  Modelled from the spec: the cursor. It holds a sticky error and its position, which is
  a bound on the keys still to come: every key (after \<^verbatim>\<open>SeekFirst\<close>), the keys at or after
  a sought key (after \<^verbatim>\<open>Seek\<close>), or the keys after the entry returned last. A step reads
  the map as it is at that moment, so the cursor pins no version of the map.
\<close>

datatype position = FromFirst | AtLeast bytes | Greater bytes

record Enumerator =
  enum_err :: "error option"
  enum_pos :: position

fun in_position :: "position \<Rightarrow> bytes \<Rightarrow> bool" where
  "in_position FromFirst k = True"
| "in_position (AtLeast b) k = (itemCompare b k \<le> 0)"
| "in_position (Greater b) k = (itemCompare b k < 0)"

text \<open>\<^verbatim>\<open>Tree.Seek\<close> returns the cursor and whether the key was hit; it does not fail.\<close>

definition Tree_Seek :: "Tree \<Rightarrow> bytes \<Rightarrow> Enumerator \<times> bool" where
  "Tree_Seek tr k = (\<lparr>enum_err = None, enum_pos = AtLeast k\<rparr>, snd (Tree_Get tr k))"

text \<open>\<^verbatim>\<open>Tree.SeekFirst\<close> gives no cursor and \<^verbatim>\<open>io.EOF\<close> on the empty map.\<close>

definition Tree_SeekFirst :: "Tree \<Rightarrow> Enumerator option \<times> error option" where
  "Tree_SeekFirst tr =
     (if tr = [] then (None, Some io_EOF)
      else (Some \<lparr>enum_err = None, enum_pos = FromFirst\<rparr>, None))"

text \<open>
  \<^verbatim>\<open>Enumerator.Next\<close>: the entry at the position and a cursor moved past it, or nil, nil
  and \<^verbatim>\<open>io.EOF\<close> (kept in the cursor) when no entry is left.
\<close>

definition Enumerator_Next ::
  "Tree \<Rightarrow> Enumerator \<Rightarrow> (iface \<times> iface \<times> error option) \<times> Enumerator" where
  "Enumerator_Next tr en =
     (case enum_err en of
        Some er \<Rightarrow> ((nil_iface, nil_iface, Some er), en)
      | None \<Rightarrow>
          (case List.find (\<lambda>kv. in_position (enum_pos en) (fst kv)) tr of
             None \<Rightarrow> ((nil_iface, nil_iface, Some io_EOF), en\<lparr>enum_err := Some io_EOF\<rparr>)
           | Some (k, v) \<Rightarrow>
               ((bytes_iface k, bytes_iface v, None), en\<lparr>enum_pos := Greater k\<rparr>)))"

section \<open>Store\<close>

text \<open>
  The mutex of the store serialises the operations; each operation below is one such
  critical section, run on the state of the store at that moment.
\<close>

record Store =
  Store_t :: Tree

definition StoreConstructor :: Store where
  "StoreConstructor = \<lparr>Store_t = TreeNew\<rparr>"

definition Store_Get :: "Store \<Rightarrow> bytes \<Rightarrow> panic + (bytes \<times> error option)" where
  "Store_Get s k =
     (case Tree_Get (Store_t s) k of
        (v, ok) \<Rightarrow>
          if \<not> ok \<or> v = nil_iface then Inr (None, None)
          else (case assert_bytes v of
                  Inl p \<Rightarrow> Inl p
                | Inr b \<Rightarrow> Inr (b, None)))"

definition Store_Set :: "Store \<Rightarrow> bytes \<Rightarrow> bytes \<Rightarrow> Store \<times> error option" where
  "Store_Set s k v = (s\<lparr>Store_t := Tree_Set (Store_t s) k v\<rparr>, None)"

definition Store_Delete :: "Store \<Rightarrow> bytes \<Rightarrow> Store \<times> error option" where
  "Store_Delete s k = (s\<lparr>Store_t := Tree_Delete (Store_t s) k\<rparr>, None)"

section \<open>Iterator\<close>

text \<open>
  The iterator's reference to its store is the store state passed to each operation: the
  state at the time of the call, which other callers may have changed since the last one.
  \<open>Iterator_e = None\<close> is the nil cursor pointer.
\<close>

record Iterator =
  Iterator_e :: "Enumerator option"
  currK :: iface
  currV :: iface
  currErr :: "error option"

definition Iterator_Next :: "Store \<Rightarrow> Iterator \<Rightarrow> panic + Iterator" where
  "Iterator_Next s w =
     (if currErr w \<noteq> None
      then Inr (w\<lparr>currK := nil_iface, currV := nil_iface, currErr := Some iteratorDoneErr\<rparr>)
      else (case Iterator_e w of
              None \<Rightarrow> Inl NilDeref
            | Some en \<Rightarrow>
                (case Enumerator_Next (Store_t s) en of
                   ((k, v, er), en') \<Rightarrow>
                     Inr (w\<lparr>Iterator_e := Some en', currK := k, currV := v, currErr := er\<rparr>))))"

definition Iterator_SeekFirst :: "Store \<Rightarrow> Iterator \<Rightarrow> panic + Iterator" where
  "Iterator_SeekFirst s w =
     (let w1 = w\<lparr>currK := nil_iface, currV := nil_iface, currErr := None\<rparr>;
          (en, er) = Tree_SeekFirst (Store_t s);
          w2 = w1\<lparr>Iterator_e := en\<rparr>;
          w3 = (if er \<noteq> None
                then w2\<lparr>currK := nil_iface, currV := nil_iface, currErr := Some iteratorDoneErr\<rparr>
                else w2)
      in Iterator_Next s w3)"

definition Iterator_Seek :: "Store \<Rightarrow> Iterator \<Rightarrow> bytes \<Rightarrow> panic + Iterator" where
  "Iterator_Seek s w k =
     (let w1 = w\<lparr>currK := nil_iface, currV := nil_iface, currErr := None\<rparr>;
          w2 = w1\<lparr>Iterator_e := Some (fst (Tree_Seek (Store_t s) k))\<rparr>
      in Iterator_Next s w2)"

definition Iterator_Current :: "Iterator \<Rightarrow> panic + (bytes \<times> bytes \<times> bool)" where
  "Iterator_Current w =
     (if currErr w = Some iteratorDoneErr \<or> currK w = nil_iface \<or> currV w = nil_iface
      then Inr (None, None, False)
      else (case assert_bytes (currK w) of
              Inl p \<Rightarrow> Inl p
            | Inr k \<Rightarrow>
                (case assert_bytes (currV w) of
                   Inl p \<Rightarrow> Inl p
                 | Inr v \<Rightarrow> Inr (k, v, True))))"

definition Iterator_Key :: "Iterator \<Rightarrow> panic + bytes" where
  "Iterator_Key w =
     (case Iterator_Current w of
        Inl p \<Rightarrow> Inl p
      | Inr (k, _, ok) \<Rightarrow> if \<not> ok then Inr None else Inr k)"

definition Iterator_Value :: "Iterator \<Rightarrow> panic + bytes" where
  "Iterator_Value w =
     (case Iterator_Current w of
        Inl p \<Rightarrow> Inl p
      | Inr (_, v, ok) \<Rightarrow> if \<not> ok then Inr None else Inr v)"

definition Iterator_Valid :: "Iterator \<Rightarrow> panic + bool" where
  "Iterator_Valid w =
     (case Iterator_Current w of
        Inl p \<Rightarrow> Inl p
      | Inr (_, _, ok) \<Rightarrow> Inr ok)"

definition Iterator_Close :: "Iterator \<Rightarrow> Iterator \<times> error option" where
  "Iterator_Close w = (w\<lparr>Iterator_e := None\<rparr>, None)"

definition Store_Iterator :: "Store \<Rightarrow> bytes \<Rightarrow> panic + Iterator" where
  "Store_Iterator s k =
     Iterator_Seek s
       \<lparr>Iterator_e = None, currK = nil_iface, currV = nil_iface, currErr = None\<rparr> k"

section \<open>Batch\<close>

text \<open>
  A merge operator (\<^verbatim>\<open>store.AssociativeMerge\<close>) takes the key and the existing value
  and returns the new value and an error.
\<close>

type_synonym AssociativeMerge = "bytes \<Rightarrow> bytes \<Rightarrow> bytes \<times> error option"
type_synonym AssociativeMergeChain = "AssociativeMerge list"

text \<open>
  Modelled from the spec: \<^verbatim>\<open>AssociativeMergeChain.Merge\<close> of package
  \<^verbatim>\<open>index/store\<close> is not part of the sources. The spec: the chain's operators are folded
  over the key and the current value in registration order, and an operator's failure
  is the failure of the chain, with that operator's error.
\<close>

fun AssociativeMergeChain_Merge ::
  "AssociativeMergeChain \<Rightarrow> bytes \<Rightarrow> bytes \<Rightarrow> bytes \<times> error option" where
  "AssociativeMergeChain_Merge [] key orig = (orig, None)"
| "AssociativeMergeChain_Merge (m # a) key orig =
     (case m key orig of
        (cur, Some er) \<Rightarrow> (None, Some er)
      | (cur, None) \<Rightarrow> AssociativeMergeChain_Merge a key cur)"

text \<open>
  The pending keys and values are slices of slices; a nil slice and an empty one behave
  alike under \<^verbatim>\<open>append\<close>, \<^verbatim>\<open>range\<close> and indexing, so both are the empty list. The merge
  map is keyed by the string of the key's bytes; \<open>ms = None\<close> is the nil map, which can
  be read and ranged over but not assigned into.
\<close>

record Batch =
  ks :: "bytes list"
  vs :: "bytes list"
  ms :: "(byte list \<rightharpoonup> AssociativeMergeChain) option"

definition Store_NewBatch :: Batch where
  "Store_NewBatch = \<lparr>ks = [], vs = [], ms = Some Map.empty\<rparr>"

definition Batch_Set :: "Batch \<Rightarrow> bytes \<Rightarrow> bytes \<Rightarrow> Batch" where
  "Batch_Set w k v = w\<lparr>ks := ks w @ [k], vs := vs w @ [v]\<rparr>"

definition Batch_Delete :: "Batch \<Rightarrow> bytes \<Rightarrow> Batch" where
  "Batch_Delete w k = w\<lparr>ks := ks w @ [k], vs := vs w @ [None]\<rparr>"

text \<open>Reading a missing key of a map, or any key of the nil map, gives the nil chain.\<close>

definition chain_at ::
  "(byte list \<rightharpoonup> AssociativeMergeChain) option \<Rightarrow> byte list \<Rightarrow> AssociativeMergeChain" where
  "chain_at mo key =
     (case mo of
        None \<Rightarrow> []
      | Some m \<Rightarrow> (case m key of None \<Rightarrow> [] | Some mc \<Rightarrow> mc))"

definition Batch_Merge :: "Batch \<Rightarrow> bytes \<Rightarrow> AssociativeMerge \<Rightarrow> panic + Batch" where
  "Batch_Merge w k oper =
     (let key = raw k in
      case ms w of
        None \<Rightarrow> Inl NilMapAssign
      | Some m \<Rightarrow> Inr (w\<lparr>ms := Some (m(key \<mapsto> chain_at (ms w) key @ [oper]))\<rparr>))"

text \<open>
  The first loop of \<^verbatim>\<open>Execute\<close> ranges over the merge map. Go leaves the order of that
  range open, so the order is an argument: the keys as the range yields them.
  The result is the error returned, if any, and the map as the loop left it.
\<close>

fun merge_loop ::
  "(byte list \<rightharpoonup> AssociativeMergeChain) \<Rightarrow> byte list list \<Rightarrow> Tree \<Rightarrow> panic + (error option \<times> Tree)" where
  "merge_loop m [] tr = Inr (None, tr)"
| "merge_loop m (key # rest) tr =
     (case m key of
        None \<Rightarrow> merge_loop m rest tr
      | Some mc \<Rightarrow>
          (let k = Some key;
               (v, ok) = Tree_Get tr k
           in case (if ok \<and> v \<noteq> nil_iface then assert_bytes v else Inr None) of
                Inl p \<Rightarrow> Inl p
              | Inr b \<Rightarrow>
                  (case AssociativeMergeChain_Merge mc k b of
                     (b', Some er) \<Rightarrow> Inr (Some er, tr)
                   | (b', None) \<Rightarrow>
                       if b' \<noteq> None then merge_loop m rest (Tree_Set tr k b')
                       else merge_loop m rest (Tree_Delete tr k))))"

text \<open>The second loop: \<^verbatim>\<open>for i, k := range ks\<close> with the indexed read \<^verbatim>\<open>vs[i]\<close>.\<close>

fun write_loop :: "bytes list \<Rightarrow> bytes list \<Rightarrow> nat \<Rightarrow> Tree \<Rightarrow> panic + Tree" where
  "write_loop [] vl i tr = Inr tr"
| "write_loop (k # kl) vl i tr =
     (if i < length vl
      then (let v = vl ! i in
            if v \<noteq> None then write_loop kl vl (Suc i) (Tree_Set tr k v)
            else write_loop kl vl (Suc i) (Tree_Delete tr k))
      else Inl IndexOutOfRange)"

text \<open>A range order of a map: each of its keys once.\<close>

definition range_order :: "(byte list \<rightharpoonup> AssociativeMergeChain) \<Rightarrow> byte list list \<Rightarrow> bool" where
  "range_order m order = (distinct order \<and> set order = dom m)"

definition Batch_Execute ::
  "byte list list \<Rightarrow> Batch \<Rightarrow> Store \<Rightarrow> panic + (error option \<times> Batch \<times> Store)" where
  "Batch_Execute order w s =
     (let ks0 = ks w; vs0 = vs w; ms0 = ms w;
          w' = w\<lparr>ks := [], vs := [], ms := Some Map.empty\<rparr>
      in case merge_loop (case ms0 of None \<Rightarrow> Map.empty | Some m \<Rightarrow> m) order (Store_t s) of
           Inl p \<Rightarrow> Inl p
         | Inr (Some er, tr) \<Rightarrow> Inr (Some er, w', s\<lparr>Store_t := tr\<rparr>)
         | Inr (None, tr) \<Rightarrow>
             (case write_loop ks0 vs0 0 tr of
                Inl p \<Rightarrow> Inl p
              | Inr tr' \<Rightarrow> Inr (None, w', s\<lparr>Store_t := tr'\<rparr>)))"

definition Batch_Close :: "Batch \<Rightarrow> Batch \<times> error option" where
  "Batch_Close w = (w\<lparr>ks := [], vs := [], ms := None\<rparr>, None)"

section \<open>Notions used in the statements\<close>

text \<open>The two pending buffers of a batch pair up: they have the same length.\<close>

definition batch_inv :: "Batch \<Rightarrow> bool" where
  "batch_inv w = (length (ks w) = length (vs w))"

text \<open>
  The byte slice a point lookup reads for a key (nil when the key is missing), and the
  write of a slice as both loops of \<^verbatim>\<open>Execute\<close> do it: set a value, delete on nil.
\<close>

definition lookup :: "Tree \<Rightarrow> bytes \<Rightarrow> bytes" where
  "lookup tr k = (case Tree_Get tr k of (bytes_iface b, True) \<Rightarrow> b | _ \<Rightarrow> None)"

definition put :: "Tree \<Rightarrow> bytes \<Rightarrow> bytes \<Rightarrow> Tree" where
  "put tr k v = (if v \<noteq> None then Tree_Set tr k v else Tree_Delete tr k)"

text \<open>Sequencing of calls that may panic.\<close>

definition then_do :: "panic + 'a \<Rightarrow> ('a \<Rightarrow> panic + 'b) \<Rightarrow> panic + 'b" where
  "then_do r f = (case r of Inl p \<Rightarrow> Inl p | Inr x \<Rightarrow> f x)"

text \<open>A caller's sequence of point writes on a store, run from left to right.\<close>

datatype store_op = SetOp bytes bytes | DeleteOp bytes

fun apply_op :: "Store \<Rightarrow> store_op \<Rightarrow> Store \<times> error option" where
  "apply_op s (SetOp k v) = Store_Set s k v"
| "apply_op s (DeleteOp k) = Store_Delete s k"

fun run_ops :: "Store \<Rightarrow> store_op list \<Rightarrow> Store" where
  "run_ops s [] = s"
| "run_ops s (x # xs) = run_ops (fst (apply_op s x)) xs"

text \<open>
  The spec's reading of such a sequence: the last write to a key, if there is one. The
  result is \<open>None\<close> for a key never written, \<open>Some v\<close> when the last operation on the key
  is a set of \<open>v\<close>, and \<open>Some None\<close> (absence) when it is a delete. Keys are the same key
  when their bytes are.
\<close>

fun last_write :: "store_op list \<Rightarrow> bytes \<Rightarrow> bytes option" where
  "last_write [] k = None"
| "last_write (SetOp k' v # rest) k =
     (case last_write rest k of
        Some r \<Rightarrow> Some r
      | None \<Rightarrow> if raw k' = raw k then Some v else None)"
| "last_write (DeleteOp k' # rest) k =
     (case last_write rest k of
        Some r \<Rightarrow> Some r
      | None \<Rightarrow> if raw k' = raw k then Some None else None)"

text \<open>
  A caller's sequence of \<^verbatim>\<open>Next\<close> calls on an iterator, each on the state the store has
  at the time of the call.
\<close>

fun Next_calls :: "Store list \<Rightarrow> Iterator \<Rightarrow> panic + Iterator" where
  "Next_calls [] w = Inr w"
| "Next_calls (s # ss) w = then_do (Iterator_Next s w) (Next_calls ss)"

text \<open>All four reads of the iterator report that there is no current entry.\<close>

definition no_entry :: "Iterator \<Rightarrow> bool" where
  "no_entry w =
     (Iterator_Current w = Inr (None, None, False) \<and> Iterator_Key w = Inr None \<and>
      Iterator_Value w = Inr None \<and> Iterator_Valid w = Inr False)"

text \<open>
  A caller's traversal: while the iterator is valid, take the current entry and call
  \<^verbatim>\<open>Next\<close>. The loop is bounded by fuel; \<open>None\<close> is a traversal that did not end within it.
\<close>

fun collect :: "nat \<Rightarrow> Store \<Rightarrow> Iterator \<Rightarrow> (panic + (bytes \<times> bytes) list) option" where
  "collect 0 s w = None"
| "collect (Suc n) s w =
     (case Iterator_Current w of
        Inl p \<Rightarrow> Some (Inl p)
      | Inr (k, v, ok) \<Rightarrow>
          if \<not> ok then Some (Inr [])
          else (case Iterator_Next s w of
                  Inl p \<Rightarrow> Some (Inl p)
                | Inr w' \<Rightarrow>
                    (case collect n s w' of
                       None \<Rightarrow> None
                     | Some (Inl p) \<Rightarrow> Some (Inl p)
                     | Some (Inr r) \<Rightarrow> Some (Inr ((k, v) # r)))))"

text \<open>
  An entry of the map with the least key at or after a given key.
\<close>

definition least_from :: "Tree \<Rightarrow> bytes \<Rightarrow> bytes \<times> bytes \<Rightarrow> bool" where
  "least_from tr k e =
     (e \<in> set tr \<and> itemCompare k (fst e) \<le> 0 \<and>
      (\<forall>kv \<in> set tr. itemCompare k (fst kv) \<le> 0 \<longrightarrow> itemCompare (fst e) (fst kv) \<le> 0))"

text \<open>
  The iterator stands on an entry: it shows the entry and its cursor is past it.
\<close>

definition positioned :: "Iterator \<Rightarrow> bytes \<Rightarrow> bytes \<Rightarrow> bool" where
  "positioned w k v =
     (currK w = bytes_iface k \<and> currV w = bytes_iface v \<and> currErr w = None \<and>
      (\<exists>en. Iterator_e w = Some en \<and> enum_err en = None \<and> enum_pos en = Greater k))"

text \<open>The replay of a list of plain writes, in list order.\<close>

fun replay :: "Tree \<Rightarrow> (bytes \<times> bytes) list \<Rightarrow> Tree" where
  "replay tr [] = tr"
| "replay tr ((k, v) # kvs) = replay (put tr k v) kvs"

text \<open>
  The batch as \<^verbatim>\<open>Execute\<close> leaves it: both buffers empty and a fresh merge map. The
  merge map that \<^verbatim>\<open>Execute\<close> ranges over: the nil map has no keys.
\<close>

definition cleared :: "Batch \<Rightarrow> Batch" where
  "cleared w = w\<lparr>ks := [], vs := [], ms := Some Map.empty\<rparr>"

definition merge_map :: "Batch \<Rightarrow> (byte list \<rightharpoonup> AssociativeMergeChain)" where
  "merge_map w = (case ms w of None \<Rightarrow> Map.empty | Some m \<Rightarrow> m)"

text \<open>
  Merge operators of the spec's examples: one appends the byte \<^verbatim>\<open>x\<close> to the existing
  value, one gives \<^verbatim>\<open>y\<close> for an absent value and keeps a present one, one fails,
  and one gives nil whatever the existing value.
\<close>

definition op_append_x :: AssociativeMerge where
  "op_append_x key existing = (Some (raw existing @ [120]), None)"

definition op_default_y :: AssociativeMerge where
  "op_default_y key existing = (case existing of None \<Rightarrow> Some [121] | Some b \<Rightarrow> Some b, None)"

definition op_fail :: AssociativeMerge where
  "op_fail key existing = (None, Some (OperErr ''merge failed''))"

definition op_drop :: AssociativeMerge where
  "op_drop key existing = (None, None)"

text \<open>
  What \<^verbatim>\<open>Tree.Get\<close> finds for a key after a write of a slice as \<^verbatim>\<open>Execute\<close> does it:
  nothing after the write of nil, which deletes the key, and the slice otherwise.
\<close>

fun found :: "bytes \<Rightarrow> iface \<times> bool" where
  "found None = (nil_iface, False)"
| "found (Some x) = (bytes_iface (Some x), True)"

text \<open>
  The writes of the merge phase, in range order: for each key of the merge map, the key
  with the result of its chain on the value the key has in a given map.
\<close>

fun merge_writes ::
  "(byte list \<rightharpoonup> AssociativeMergeChain) \<Rightarrow> byte list list \<Rightarrow> Tree \<Rightarrow> (bytes \<times> bytes) list" where
  "merge_writes m [] tr = []"
| "merge_writes m (key # rest) tr =
     (case m key of
        None \<Rightarrow> merge_writes m rest tr
      | Some mc \<Rightarrow>
          (Some key, fst (AssociativeMergeChain_Merge mc (Some key) (lookup tr (Some key)))) #
          merge_writes m rest tr)"

section \<open>The comparison is the lexicographic order\<close>

lemma bytes_Compare_eq: "bytes_Compare a b = 0 \<longleftrightarrow> a = b"
  by (induction a b rule: bytes_Compare.induct) auto

lemma bytes_Compare_less: "bytes_Compare a b < 0 \<longleftrightarrow> a < b"
  by (induction a b rule: bytes_Compare.induct) auto

lemma itemCompare_eq: "itemCompare a b = 0 \<longleftrightarrow> raw a = raw b"
  by (simp add: itemCompare_def bytes_Compare_eq)

lemma itemCompare_less: "itemCompare a b < 0 \<longleftrightarrow> raw a < raw b"
  by (simp add: itemCompare_def bytes_Compare_less)

lemma itemCompare_le: "itemCompare a b \<le> 0 \<longleftrightarrow> raw a \<le> raw b"
  using itemCompare_eq [of a b] itemCompare_less [of a b] by (auto simp: le_less)

section \<open>Point lookups and the two loops of Execute\<close>

lemma Tree_Get_shape:
  "Tree_Get tr k = (nil_iface, False) \<or> (\<exists>v. Tree_Get tr k = (bytes_iface v, True))"
proof (induction tr)
  case Nil
  show ?case by simp
next
  case (Cons a tr)
  then show ?case by (cases a; cases "itemCompare k (fst a) = 0") simp_all
qed

lemma Store_Get_lookup: "Store_Get s k = Inr (lookup (Store_t s) k, None)"
  using Tree_Get_shape [of "Store_t s" k] by (auto simp: Store_Get_def lookup_def)

lemma read_lookup:
  "(case Tree_Get tr k of
      (v, ok) \<Rightarrow> if ok \<and> v \<noteq> nil_iface then assert_bytes v else Inr None) =
   Inr (lookup tr k)"
  using Tree_Get_shape [of tr k] by (auto simp: lookup_def)

lemma merge_loop_Cons:
  "merge_loop m (key # rest) tr =
     (case m key of
        None \<Rightarrow> merge_loop m rest tr
      | Some mc \<Rightarrow>
          (case AssociativeMergeChain_Merge mc (Some key) (lookup tr (Some key)) of
             (b', Some er) \<Rightarrow> Inr (Some er, tr)
           | (b', None) \<Rightarrow> merge_loop m rest (put tr (Some key) b')))"
proof (cases "m key")
  case None
  then show ?thesis by simp
next
  case (Some mc)
  show ?thesis
    using read_lookup [of tr "Some key"] Some
    by (cases "Tree_Get tr (Some key)") (simp add: put_def split: prod.splits option.splits)
qed

lemma merge_loop_empty: "merge_loop Map.empty order tr = Inr (None, tr)"
  by (induction order) simp_all

lemma merge_loop_returns: "\<exists>er tr'. merge_loop m order tr = Inr (er, tr')"
proof (induction order arbitrary: tr)
  case Nil
  show ?case by simp
next
  case (Cons key rest)
  show ?case unfolding merge_loop_Cons
    using Cons.IH by (auto split: option.splits prod.splits)
qed

lemma write_loop_returns:
  "i + length kl \<le> length vl \<Longrightarrow> \<exists>tr'. write_loop kl vl i tr = Inr tr'"
  by (induction kl arbitrary: i tr) (auto simp: Let_def)

lemma Execute_returns:
  assumes "batch_inv w"
  shows "\<exists>er s'. Batch_Execute order w s =
           Inr (er, w\<lparr>ks := [], vs := [], ms := Some Map.empty\<rparr>, s')"
proof -
  obtain er tr where m:
    "merge_loop (case ms w of None \<Rightarrow> Map.empty | Some m \<Rightarrow> m) order (Store_t s) = Inr (er, tr)"
    using merge_loop_returns by blast
  obtain tr' where wl: "write_loop (ks w) (vs w) 0 tr = Inr tr'"
    using write_loop_returns [of 0 "ks w" "vs w" tr] assms by (auto simp: batch_inv_def)
  show ?thesis using m wl by (cases er) (simp_all add: Batch_Execute_def)
qed

lemma Tree_Get_absent:
  "\<forall>kv \<in> set tr. itemCompare k (fst kv) \<noteq> 0 \<Longrightarrow> Tree_Get tr k = (nil_iface, False)"
  by (induction tr) auto

lemma Tree_Delete_absent:
  "\<forall>kv \<in> set tr. itemCompare k (fst kv) \<noteq> 0 \<Longrightarrow> Tree_Delete tr k = tr"
  by (induction tr) auto

section \<open>Absence is not an error\<close>

text \<open>
  Claim C7. \<^verbatim>\<open>Store.Get\<close> of a key that no entry of the map compares equal to, or whose
  entry holds the nil slice, returns the nil value and the nil error; \<^verbatim>\<open>Store.Get\<close> never
  returns an error or panics, whatever the store and the key; and \<^verbatim>\<open>Store.Delete\<close> of a
  key that is not in the map returns the nil error and leaves the store as it was.
\<close>

theorem Get_absent_Delete_missing:
  "(((\<forall>kv \<in> set (Store_t s). itemCompare k (fst kv) \<noteq> 0) \<or>
     Tree_Get (Store_t s) k = (bytes_iface None, True))
      \<longrightarrow> Store_Get s k = Inr (None, None)) \<and>
   (\<exists>b. Store_Get s k = Inr (b, None)) \<and>
   ((\<forall>kv \<in> set (Store_t s). itemCompare k (fst kv) \<noteq> 0) \<longrightarrow> Store_Delete s k = (s, None))"
  using Store_Get_lookup [of s k]
  by (auto simp: Store_Get_def Store_Delete_def Tree_Get_absent Tree_Delete_absent)

theorem Get_absent_Delete_missing_witness:
  "Store_Get \<lparr>Store_t = [(Some [1], None)]\<rparr> (Some [1]) = Inr (None, None) \<and>
   Store_Get \<lparr>Store_t = [(Some [1], None)]\<rparr> (Some [2]) = Inr (None, None) \<and>
   Store_Delete \<lparr>Store_t = [(Some [1], None)]\<rparr> (Some [2]) =
     (\<lparr>Store_t = [(Some [1], None)]\<rparr>, None)"
  using Get_absent_Delete_missing [of "\<lparr>Store_t = [(Some [1], None)]\<rparr>" "Some [1]"]
    Get_absent_Delete_missing [of "\<lparr>Store_t = [(Some [1], None)]\<rparr>" "Some [2]"]
  by (simp add: itemCompare_def)

section \<open>The pending buffers of a batch\<close>

text \<open>
  Claim C9. Every batch operation keeps the pending keys and the pending values at the
  same length: \<^verbatim>\<open>Set\<close>, \<^verbatim>\<open>Delete\<close>, \<^verbatim>\<open>Merge\<close> (when it returns), \<^verbatim>\<open>Execute\<close> and
  \<^verbatim>\<open>Close\<close>. On a batch with buffers of the same length \<^verbatim>\<open>Execute\<close> returns, for every
  range order and store: the indexed read of the values in the replay of the plain
  writes is in bounds, so the out-of-range panic is not taken.
\<close>

theorem Batch_buffers_paired:
  "batch_inv w \<Longrightarrow>
   batch_inv (Batch_Set w k v) \<and> batch_inv (Batch_Delete w k) \<and>
   (\<forall>w'. Batch_Merge w k oper = Inr w' \<longrightarrow> batch_inv w') \<and>
   (\<exists>er w' s'. Batch_Execute order w s = Inr (er, w', s') \<and> batch_inv w') \<and>
   batch_inv (fst (Batch_Close w))"
  using Execute_returns [of w order s]
  by (auto simp: batch_inv_def Batch_Set_def Batch_Delete_def Batch_Merge_def Batch_Close_def
      Let_def split: option.splits)

theorem Batch_buffers_paired_witness:
  "batch_inv Store_NewBatch \<and>
   batch_inv (Batch_Set Store_NewBatch (Some [1]) (Some [2])) \<and>
   batch_inv (Batch_Delete Store_NewBatch (Some [1])) \<and>
   (\<exists>w'. Batch_Merge Store_NewBatch (Some [1]) (\<lambda>k v. (v, None)) = Inr w' \<and> batch_inv w') \<and>
   (\<exists>er w' s'. Batch_Execute [] Store_NewBatch StoreConstructor = Inr (er, w', s') \<and> batch_inv w') \<and>
   batch_inv (fst (Batch_Close Store_NewBatch))"
proof -
  have h: "batch_inv Store_NewBatch" by (simp add: batch_inv_def Store_NewBatch_def)
  have m: "\<exists>w'. Batch_Merge Store_NewBatch (Some [1]) (\<lambda>k v. (v, None)) = Inr w'"
    by (simp add: Batch_Merge_def Store_NewBatch_def Let_def)
  show ?thesis
    using h m Batch_buffers_paired [OF h, of "Some [1]" "Some [2]" "\<lambda>k v. (v, None)" "[]" StoreConstructor]
    by auto
qed

text \<open>
  Claim C10. On a batch that has been closed, \<^verbatim>\<open>Set\<close> and \<^verbatim>\<open>Delete\<close> append to the
  emptied buffers, \<^verbatim>\<open>Execute\<close> returns the nil error, leaves the store unchanged and
  gives the batch a fresh merge map, and \<^verbatim>\<open>Merge\<close> panics on the assignment into the nil
  merge map.
\<close>

theorem Batch_after_Close:
  "Batch_Set (fst (Batch_Close w)) k v = \<lparr>ks = [k], vs = [v], ms = None\<rparr> \<and>
   Batch_Delete (fst (Batch_Close w)) k = \<lparr>ks = [k], vs = [None], ms = None\<rparr> \<and>
   Batch_Execute order (fst (Batch_Close w)) s =
     Inr (None, \<lparr>ks = [], vs = [], ms = Some Map.empty\<rparr>, s) \<and>
   Batch_Merge (fst (Batch_Close w)) k oper = Inl NilMapAssign"
  by (simp add: Batch_Close_def Batch_Set_def Batch_Delete_def Batch_Execute_def
      Batch_Merge_def merge_loop_empty)

theorem Batch_after_Close_witness:
  "Batch_Set (fst (Batch_Close Store_NewBatch)) (Some [1]) (Some [2]) =
     \<lparr>ks = [Some [1]], vs = [Some [2]], ms = None\<rparr> \<and>
   Batch_Delete (fst (Batch_Close Store_NewBatch)) (Some [1]) =
     \<lparr>ks = [Some [1]], vs = [None], ms = None\<rparr> \<and>
   Batch_Execute [] (fst (Batch_Close Store_NewBatch)) StoreConstructor =
     Inr (None, \<lparr>ks = [], vs = [], ms = Some Map.empty\<rparr>, StoreConstructor) \<and>
   Batch_Merge (fst (Batch_Close Store_NewBatch)) (Some [1]) (\<lambda>k v. (v, None)) =
     Inl NilMapAssign"
  using Batch_after_Close [of Store_NewBatch "Some [1]" "Some [2]" "[]" StoreConstructor
      "\<lambda>k v. (v, None)"]
  by simp

section \<open>The ordered map keeps its invariant\<close>

lemma tree_inv_Cons:
  "tree_inv ((k, v) # tr) \<longleftrightarrow> (\<forall>kv \<in> set tr. raw k < raw (fst kv)) \<and> tree_inv tr"
  by (auto simp: tree_inv_def itemCompare_less)

lemma tree_inv_Nil: "tree_inv []"
  by (simp add: tree_inv_def)

lemma Tree_Set_bound:
  "\<forall>kv \<in> set tr. a < raw (fst kv) \<Longrightarrow> a < raw k \<Longrightarrow>
   \<forall>kv \<in> set (Tree_Set tr k v). a < raw (fst kv)"
  by (induction tr) (fastforce split: if_splits)+

lemma Tree_Delete_subset: "set (Tree_Delete tr k) \<subseteq> set tr"
  by (induction tr) (auto split: if_splits)

lemma tree_inv_Set: "tree_inv tr \<Longrightarrow> tree_inv (Tree_Set tr k v)"
proof (induction tr)
  case Nil
  show ?case by (simp add: tree_inv_Cons tree_inv_Nil)
next
  case (Cons a tr)
  obtain k' v' where a: "a = (k', v')" by (cases a)
  show ?case
  proof (cases "raw k = raw k'")
    case True
    then show ?thesis using Cons.prems a by (simp add: tree_inv_Cons itemCompare_eq)
  next
    case False
    show ?thesis
    proof (cases "raw k < raw k'")
      case True
      then show ?thesis using Cons.prems a False
        by (auto simp: tree_inv_Cons itemCompare_eq itemCompare_less)
    next
      case ge: False
      then have "raw k' < raw k" using False by auto
      then show ?thesis using Cons a False ge Tree_Set_bound [of tr "raw k'" k v]
        by (simp add: tree_inv_Cons itemCompare_eq itemCompare_less)
    qed
  qed
qed

lemma tree_inv_Delete: "tree_inv tr \<Longrightarrow> tree_inv (Tree_Delete tr k)"
proof (induction tr)
  case Nil
  show ?case by (simp add: tree_inv_Nil)
next
  case (Cons a tr)
  obtain k' v' where a: "a = (k', v')" by (cases a)
  show ?case using Cons a Tree_Delete_subset [of tr k]
    by (auto simp: tree_inv_Cons)
qed

lemma tree_inv_put: "tree_inv tr \<Longrightarrow> tree_inv (put tr k v)"
  by (simp add: put_def tree_inv_Set tree_inv_Delete)

section \<open>Lookups after writes\<close>

lemma lookup_Nil: "lookup [] k = None"
  by (simp add: lookup_def)

lemma lookup_Cons:
  "lookup ((k', v') # tr) k = (if raw k = raw k' then v' else lookup tr k)"
  by (simp add: lookup_def itemCompare_eq)

lemma lookup_absent: "\<forall>kv \<in> set tr. raw (fst kv) \<noteq> raw k \<Longrightarrow> lookup tr k = None"
  by (induction tr) (auto simp: lookup_Nil lookup_Cons)

lemma lookup_Set: "lookup (Tree_Set tr k v) k' = (if raw k' = raw k then v else lookup tr k')"
  by (induction tr) (auto simp: lookup_Nil lookup_Cons itemCompare_eq)

lemma lookup_Delete:
  "tree_inv tr \<Longrightarrow>
   lookup (Tree_Delete tr k) k' = (if raw k' = raw k then None else lookup tr k')"
proof (induction tr)
  case Nil
  show ?case by (simp add: lookup_Nil)
next
  case (Cons a tr)
  obtain k1 v1 where a: "a = (k1, v1)" by (cases a)
  have inv: "tree_inv tr" and lo: "\<forall>kv \<in> set tr. raw k1 < raw (fst kv)"
    using Cons.prems a by (simp_all add: tree_inv_Cons)
  show ?case
  proof (cases "raw k = raw k1")
    case True
    have "\<forall>kv \<in> set tr. raw (fst kv) \<noteq> raw k" using lo True by auto
    then have "lookup tr k' = None" if "raw k' = raw k"
      using that lookup_absent [of tr k'] by simp
    then show ?thesis using a True by (auto simp: lookup_Cons itemCompare_eq)
  next
    case False
    then show ?thesis using a Cons.IH [OF inv] by (auto simp: lookup_Cons itemCompare_eq)
  qed
qed

lemma lookup_put:
  "tree_inv tr \<Longrightarrow> lookup (put tr k v) k' = (if raw k' = raw k then v else lookup tr k')"
  by (auto simp: put_def lookup_Set lookup_Delete)

section \<open>Point writes and point reads\<close>

lemma tree_inv_apply_op: "tree_inv (Store_t s) \<Longrightarrow> tree_inv (Store_t (fst (apply_op s x)))"
  by (cases x) (simp_all add: Store_Set_def Store_Delete_def tree_inv_Set tree_inv_Delete)

lemma lookup_apply_op:
  "tree_inv (Store_t s) \<Longrightarrow>
   lookup (Store_t (fst (apply_op s x))) k =
     (case last_write [x] k of Some r \<Rightarrow> r | None \<Rightarrow> lookup (Store_t s) k)"
  by (cases x) (auto simp: Store_Set_def Store_Delete_def lookup_Set lookup_Delete)

lemma lookup_run_ops:
  "tree_inv (Store_t s) \<Longrightarrow>
   lookup (Store_t (run_ops s xs)) k =
     (case last_write xs k of Some r \<Rightarrow> r | None \<Rightarrow> lookup (Store_t s) k)"
proof (induction xs arbitrary: s)
  case Nil
  show ?case by simp
next
  case (Cons x xs)
  have inv: "tree_inv (Store_t (fst (apply_op s x)))"
    using Cons.prems by (rule tree_inv_apply_op)
  show ?case
    using Cons.IH [OF inv] lookup_apply_op [OF Cons.prems, of x k]
    by (cases x) (auto split: option.splits)
qed

lemma tree_inv_run_ops: "tree_inv (Store_t s) \<Longrightarrow> tree_inv (Store_t (run_ops s xs))"
  by (induction xs arbitrary: s) (simp_all add: tree_inv_apply_op)

text \<open>
  Claim C4. After any sequence of \<^verbatim>\<open>Store.Set\<close> and \<^verbatim>\<open>Store.Delete\<close> calls on a newly
  constructed store, \<^verbatim>\<open>Store.Get\<close> of a key returns the nil error and the value of the
  last write to that key: the value set when the last operation on the key is a
  \<^verbatim>\<open>Set\<close>, absence when it is a \<^verbatim>\<open>Delete\<close>, and absence when the key was never written.
  Operations on other keys do not change the result.
\<close>

theorem Get_returns_last_write:
  "Store_Get (run_ops StoreConstructor xs) k =
     Inr (case last_write xs k of Some r \<Rightarrow> r | None \<Rightarrow> None, None)"
proof -
  have inv: "tree_inv (Store_t StoreConstructor)"
    by (simp add: StoreConstructor_def TreeNew_def tree_inv_Nil)
  have emp: "lookup (Store_t StoreConstructor) k = None"
    by (simp add: StoreConstructor_def TreeNew_def lookup_Nil)
  show ?thesis
    using lookup_run_ops [OF inv, of xs k] emp
    by (simp add: Store_Get_lookup split: option.splits)
qed

theorem Get_returns_last_write_witness:
  "Store_Get (run_ops StoreConstructor
      [SetOp (Some [1]) (Some [7]), SetOp (Some [2]) (Some [8]), DeleteOp (Some [2]),
       SetOp (Some [1]) (Some [9])]) (Some [1]) = Inr (Some [9], None) \<and>
   Store_Get (run_ops StoreConstructor
      [SetOp (Some [1]) (Some [7]), SetOp (Some [2]) (Some [8]), DeleteOp (Some [2]),
       SetOp (Some [1]) (Some [9])]) (Some [2]) = Inr (None, None) \<and>
   Store_Get (run_ops StoreConstructor
      [SetOp (Some [1]) (Some [7]), SetOp (Some [2]) (Some [8]), DeleteOp (Some [2]),
       SetOp (Some [1]) (Some [9])]) (Some [3]) = Inr (None, None)"
  using Get_returns_last_write [of "[SetOp (Some [1]) (Some [7]), SetOp (Some [2]) (Some [8]),
      DeleteOp (Some [2]), SetOp (Some [1]) (Some [9])]" "Some [1]"]
    Get_returns_last_write [of "[SetOp (Some [1]) (Some [7]), SetOp (Some [2]) (Some [8]),
      DeleteOp (Some [2]), SetOp (Some [1]) (Some [9])]" "Some [2]"]
    Get_returns_last_write [of "[SetOp (Some [1]) (Some [7]), SetOp (Some [2]) (Some [8]),
      DeleteOp (Some [2]), SetOp (Some [1]) (Some [9])]" "Some [3]"]
  by simp

section \<open>Setting the nil value and deleting\<close>

text \<open>
  For \<^verbatim>\<open>Store.Get\<close> a set of the nil value and a delete are the same, and the two maps
  differ in the entry of the key alone.
\<close>

lemma Set_nil_Get_as_Delete:
  "tree_inv (Store_t s) \<Longrightarrow>
   snd (Store_Set s k None) = None \<and> snd (Store_Delete s k) = None \<and>
   Store_Get (fst (Store_Set s k None)) k' = Store_Get (fst (Store_Delete s k)) k'"
  by (simp add: Store_Get_lookup Store_Set_def Store_Delete_def lookup_Set lookup_Delete)

lemma Delete_drops_entry:
  "tree_inv tr \<Longrightarrow>
   Tree_Delete tr k = filter (\<lambda>kv. raw (fst kv) \<noteq> raw k) (Tree_Set tr k None)"
proof (induction tr)
  case Nil
  show ?case by simp
next
  case (Cons a tr)
  obtain k1 v1 where a: "a = (k1, v1)" by (cases a)
  have inv: "tree_inv tr" and lo: "\<forall>kv \<in> set tr. raw k1 < raw (fst kv)"
    using Cons.prems a by (simp_all add: tree_inv_Cons)
  show ?case
  proof (cases "raw k = raw k1")
    case True
    have "\<forall>kv \<in> set tr. raw (fst kv) \<noteq> raw k" using lo True by auto
    then have "filter (\<lambda>kv. raw (fst kv) \<noteq> raw k) tr = tr" by (simp add: filter_id_conv)
    then show ?thesis using a True by (simp add: itemCompare_eq)
  next
    case False
    show ?thesis
    proof (cases "raw k < raw k1")
      case True
      have "\<forall>kv \<in> set tr. raw (fst kv) \<noteq> raw k"
      proof
        fix kv assume "kv \<in> set tr"
        then have "raw k1 < raw (fst kv)" using lo by blast
        then show "raw (fst kv) \<noteq> raw k" using True by auto
      qed
      then have f: "filter (\<lambda>kv. raw (fst kv) \<noteq> raw k) tr = tr" by (simp add: filter_id_conv)
      have d: "Tree_Delete tr k = tr"
        using \<open>\<forall>kv \<in> set tr. raw (fst kv) \<noteq> raw k\<close>
        by (intro Tree_Delete_absent) (auto simp: itemCompare_eq)
      show ?thesis using a False True f d
        by (simp add: itemCompare_eq itemCompare_less)
    next
      case ge: False
      show ?thesis using a False ge Cons.IH [OF inv]
        by (simp add: itemCompare_eq itemCompare_less)
    qed
  qed
qed

text \<open>
  Claim C3. The claim is that \<^verbatim>\<open>Store.Set\<close> of a key with the nil value and
  \<^verbatim>\<open>Store.Delete\<close> of the key cannot be told apart by \<^verbatim>\<open>Get\<close> or by an iterator. The code
  at the new store and the key 1: \<^verbatim>\<open>Store.Set\<close> leaves an entry holding the nil slice
  where \<^verbatim>\<open>Store.Delete\<close> leaves none. \<^verbatim>\<open>Get\<close> returns absence for it, but an iterator
  sought to the key has a current entry, the key with the nil value (the test of the
  value against nil in \<^verbatim>\<open>Current\<close> is on an interface holding a nil slice, which is not
  the nil interface), while after \<^verbatim>\<open>Store.Delete\<close> the iterator has none. The same write
  through a batch, \<^verbatim>\<open>Batch.Set\<close> with the nil value and \<^verbatim>\<open>Execute\<close>, deletes the key.
\<close>

theorem Set_nil_keeps_entry:
  "Store_t (fst (Store_Set StoreConstructor (Some [1]) None)) = [(Some [1], None)] \<and>
   Store_t (fst (Store_Delete StoreConstructor (Some [1]))) = [] \<and>
   Store_Get (fst (Store_Set StoreConstructor (Some [1]) None)) (Some [1]) = Inr (None, None) \<and>
   then_do (Store_Iterator (fst (Store_Set StoreConstructor (Some [1]) None)) (Some [1]))
     Iterator_Current = Inr (Some [1], None, True) \<and>
   then_do (Store_Iterator (fst (Store_Delete StoreConstructor (Some [1]))) (Some [1]))
     Iterator_Current = Inr (None, None, False) \<and>
   Batch_Execute [] (Batch_Set Store_NewBatch (Some [1]) None) StoreConstructor =
     Inr (None, Store_NewBatch, StoreConstructor)"
  by (simp add: then_do_def Store_Iterator_def Iterator_Seek_def Iterator_Next_def
      Iterator_Current_def Store_Set_def Store_Delete_def Store_Get_def StoreConstructor_def
      TreeNew_def Tree_Seek_def Enumerator_Next_def itemCompare_def Batch_Execute_def
      Batch_Set_def Store_NewBatch_def)

text \<open>So the two iterators show different current entries.\<close>

theorem Set_nil_keeps_entry_witness:
  "then_do (Store_Iterator (fst (Store_Set StoreConstructor (Some [1]) None)) (Some [1]))
     Iterator_Current \<noteq>
   then_do (Store_Iterator (fst (Store_Delete StoreConstructor (Some [1]))) (Some [1]))
     Iterator_Current"
  using Set_nil_keeps_entry by simp

section \<open>The exhausted iterator\<close>

lemma no_entry_nil: "currK w = nil_iface \<Longrightarrow> no_entry w"
  by (simp add: no_entry_def Iterator_Current_def Iterator_Key_def Iterator_Value_def
      Iterator_Valid_def)

lemma Next_sentinel:
  "Iterator_Next s w0 = Inr w \<Longrightarrow> currErr w \<noteq> None \<Longrightarrow> currK w = nil_iface"
  by (auto simp: Iterator_Next_def Enumerator_Next_def
      split: if_splits option.splits prod.splits)

lemma Seek_sentinel:
  "Iterator_Seek s w0 k = Inr w \<Longrightarrow> currErr w \<noteq> None \<Longrightarrow> currK w = nil_iface"
  unfolding Iterator_Seek_def Let_def by (rule Next_sentinel)

lemma SeekFirst_sentinel:
  "Iterator_SeekFirst s w0 = Inr w \<Longrightarrow> currErr w \<noteq> None \<Longrightarrow> currK w = nil_iface"
  unfolding Iterator_SeekFirst_def Let_def by (auto split: prod.splits dest: Next_sentinel)

lemma Next_calls_terminal:
  "currErr w \<noteq> None \<Longrightarrow> currK w = nil_iface \<Longrightarrow>
   \<exists>w'. Next_calls ss w = Inr w' \<and> currErr w' \<noteq> None \<and> currK w' = nil_iface"
proof (induction ss arbitrary: w)
  case Nil
  then show ?case by simp
next
  case (Cons s ss)
  let ?w1 = "w\<lparr>currK := nil_iface, currV := nil_iface, currErr := Some iteratorDoneErr\<rparr>"
  have n: "Iterator_Next s w = Inr ?w1" using Cons.prems by (simp add: Iterator_Next_def)
  show ?case using Cons.IH [of ?w1] n by (simp add: then_do_def)
qed

text \<open>
  Claim C6. Once a \<^verbatim>\<open>Next\<close>, \<^verbatim>\<open>Seek\<close> or \<^verbatim>\<open>SeekFirst\<close> has left the iterator with its
  error set (the cursor reported that it is done, or no cursor was obtained), the
  iterator has no current entry, and after any number of further \<^verbatim>\<open>Next\<close> calls,
  whatever the store holds by then, the error is still set and \<^verbatim>\<open>Current\<close>, \<^verbatim>\<open>Key\<close>,
  \<^verbatim>\<open>Value\<close> and \<^verbatim>\<open>Valid\<close> still report no entry; none of these calls panics.
\<close>

theorem exhausted_stays_exhausted:
  assumes "Iterator_Next s0 w0 = Inr w \<or> Iterator_Seek s0 w0 k0 = Inr w \<or>
           Iterator_SeekFirst s0 w0 = Inr w"
    and "currErr w \<noteq> None"
  shows "\<exists>w'. Next_calls ss w = Inr w' \<and> currErr w' \<noteq> None \<and> no_entry w'"
proof -
  have "currK w = nil_iface"
    using assms Next_sentinel Seek_sentinel SeekFirst_sentinel by blast
  then show ?thesis
    using Next_calls_terminal [OF assms(2), of ss] no_entry_nil by blast
qed

theorem exhausted_stays_exhausted_witness:
  "Iterator_Next \<lparr>Store_t = [(Some [1], Some [5])]\<rparr>
     \<lparr>Iterator_e = Some \<lparr>enum_err = None, enum_pos = Greater (Some [1])\<rparr>,
      currK = bytes_iface (Some [1]), currV = bytes_iface (Some [5]), currErr = None\<rparr> =
   Inr \<lparr>Iterator_e = Some \<lparr>enum_err = Some io_EOF, enum_pos = Greater (Some [1])\<rparr>,
      currK = nil_iface, currV = nil_iface, currErr = Some io_EOF\<rparr> \<and>
   (\<exists>w'. Next_calls
      [\<lparr>Store_t = [(Some [1], Some [5])]\<rparr>,
       \<lparr>Store_t = [(Some [1], Some [5]), (Some [2], Some [6])]\<rparr>]
      \<lparr>Iterator_e = Some \<lparr>enum_err = Some io_EOF, enum_pos = Greater (Some [1])\<rparr>,
       currK = nil_iface, currV = nil_iface, currErr = Some io_EOF\<rparr> = Inr w' \<and>
      currErr w' \<noteq> None \<and> no_entry w')"
proof -
  have n: "Iterator_Next \<lparr>Store_t = [(Some [1], Some [5])]\<rparr>
     \<lparr>Iterator_e = Some \<lparr>enum_err = None, enum_pos = Greater (Some [1])\<rparr>,
      currK = bytes_iface (Some [1]), currV = bytes_iface (Some [5]), currErr = None\<rparr> =
   Inr \<lparr>Iterator_e = Some \<lparr>enum_err = Some io_EOF, enum_pos = Greater (Some [1])\<rparr>,
      currK = nil_iface, currV = nil_iface, currErr = Some io_EOF\<rparr>"
    by (simp add: Iterator_Next_def Enumerator_Next_def itemCompare_def)
  show ?thesis
    using n exhausted_stays_exhausted [of "\<lparr>Store_t = [(Some [1], Some [5])]\<rparr>"
     "\<lparr>Iterator_e = Some \<lparr>enum_err = None, enum_pos = Greater (Some [1])\<rparr>,
      currK = bytes_iface (Some [1]), currV = bytes_iface (Some [5]), currErr = None\<rparr>"
     "\<lparr>Iterator_e = Some \<lparr>enum_err = Some io_EOF, enum_pos = Greater (Some [1])\<rparr>,
      currK = nil_iface, currV = nil_iface, currErr = Some io_EOF\<rparr>" None
     "[\<lparr>Store_t = [(Some [1], Some [5])]\<rparr>,
       \<lparr>Store_t = [(Some [1], Some [5]), (Some [2], Some [6])]\<rparr>]"]
    by simp
qed

section \<open>Iteration in key order\<close>

lemma tree_inv_append:
  "tree_inv (xs @ ys) \<longleftrightarrow>
     tree_inv xs \<and> tree_inv ys \<and> (\<forall>a \<in> set xs. \<forall>b \<in> set ys. raw (fst a) < raw (fst b))"
  by (auto simp: tree_inv_def sorted_wrt_append itemCompare_less)

lemma find_append_none: "\<forall>x \<in> set xs. \<not> P x \<Longrightarrow> List.find P (xs @ ys) = List.find P ys"
  by (induction xs) auto

lemma find_after:
  assumes "tree_inv (pre @ (k, v) # post)"
  shows "List.find (\<lambda>kv. in_position (Greater k) (fst kv)) (pre @ (k, v) # post) =
           (case post of [] \<Rightarrow> None | x # _ \<Rightarrow> Some x)"
proof -
  have pre: "\<forall>x \<in> set pre. \<not> in_position (Greater k) (fst x)"
    using assms by (auto simp: tree_inv_append itemCompare_less)
  have post: "\<forall>x \<in> set post. in_position (Greater k) (fst x)"
    using assms by (auto simp: tree_inv_append tree_inv_Cons itemCompare_less)
  have "List.find (\<lambda>kv. in_position (Greater k) (fst kv)) (pre @ (k, v) # post) =
        List.find (\<lambda>kv. in_position (Greater k) (fst kv)) ((k, v) # post)"
    using pre by (rule find_append_none)
  also have "\<dots> = (case post of [] \<Rightarrow> None | x # _ \<Rightarrow> Some x)"
    using post by (cases post) (simp_all add: itemCompare_less)
  finally show ?thesis .
qed

lemma find_least:
  "tree_inv tr \<Longrightarrow> e \<in> set tr \<Longrightarrow> P e \<Longrightarrow>
   (\<forall>kv \<in> set tr. P kv \<longrightarrow> raw (fst e) \<le> raw (fst kv)) \<Longrightarrow> List.find P tr = Some e"
proof (induction tr)
  case Nil
  then show ?case by simp
next
  case (Cons a tr)
  obtain k1 v1 where a: "a = (k1, v1)" by (cases a)
  have inv: "tree_inv tr" and lo: "\<forall>kv \<in> set tr. raw k1 < raw (fst kv)"
    using Cons.prems(1) a by (simp_all add: tree_inv_Cons)
  show ?case
  proof (cases "P a")
    case True
    then have "raw (fst e) \<le> raw k1" using Cons.prems(4) a by auto
    then have "e = a" using Cons.prems(2) lo a by auto
    then show ?thesis using True by simp
  next
    case False
    then have "e \<in> set tr" using Cons.prems(2,3) by auto
    then show ?thesis using Cons.IH [OF inv] Cons.prems(3,4) False by simp
  qed
qed

lemma positioned_Current: "positioned w k v \<Longrightarrow> Iterator_Current w = Inr (k, v, True)"
  by (auto simp: positioned_def Iterator_Current_def)

lemma positioned_Next_more:
  assumes "positioned w k v" "tree_inv (pre @ (k, v) # (k', v') # post)"
    "Store_t s = pre @ (k, v) # (k', v') # post"
  shows "\<exists>w'. Iterator_Next s w = Inr w' \<and> positioned w' k' v'"
  using assms(1) find_after [OF assms(2)] assms(3)
  by (auto simp: positioned_def Iterator_Next_def Enumerator_Next_def)

lemma positioned_Next_last:
  assumes "positioned w k v" "tree_inv (pre @ [(k, v)])" "Store_t s = pre @ [(k, v)]"
  shows "\<exists>w'. Iterator_Next s w = Inr w' \<and> currK w' = nil_iface"
  using assms(1) find_after [OF assms(2)] assms(3)
  by (auto simp: positioned_def Iterator_Next_def Enumerator_Next_def)

lemma collect_nil: "currK w = nil_iface \<Longrightarrow> collect (Suc n) s w = Some (Inr [])"
  by (simp add: Iterator_Current_def)

lemma collect_positioned:
  "positioned w k v \<Longrightarrow> tree_inv (pre @ (k, v) # post) \<Longrightarrow> Store_t s = pre @ (k, v) # post \<Longrightarrow>
   collect (Suc (Suc (length post))) s w = Some (Inr ((k, v) # post))"
proof (induction post arbitrary: pre k v w)
  case Nil
  obtain w' where w': "Iterator_Next s w = Inr w'" "currK w' = nil_iface"
    using positioned_Next_last [OF Nil.prems(1)] Nil.prems(2,3) by auto
  show ?case
    using positioned_Current [OF Nil.prems(1)] w' collect_nil [of w' 0 s]
    by (simp del: collect.simps(2) add: collect.simps(2) [of "Suc 0"])
next
  case (Cons a post)
  obtain k' v' where a: "a = (k', v')" by (cases a)
  obtain w' where w': "Iterator_Next s w = Inr w'" "positioned w' k' v'"
    using positioned_Next_more [OF Cons.prems(1), of pre k' v' post s] Cons.prems(2,3) a by auto
  have "collect (Suc (Suc (length post))) s w' = Some (Inr ((k', v') # post))"
    using Cons.IH [OF w'(2), of "pre @ [(k, v)]"] Cons.prems(2,3) a by simp
  then show ?case
    using positioned_Current [OF Cons.prems(1)] w' a
    by (simp del: collect.simps(2) add: collect.simps(2) [of "Suc (Suc (length post))"])
qed

lemma tree_inv_unique:
  "tree_inv tr \<Longrightarrow> a \<in> set tr \<Longrightarrow> b \<in> set tr \<Longrightarrow> raw (fst a) = raw (fst b) \<Longrightarrow> a = b"
proof (induction tr)
  case Nil
  then show ?case by simp
next
  case (Cons x tr)
  obtain k1 v1 where x: "x = (k1, v1)" by (cases x)
  have inv: "tree_inv tr" and lo: "\<forall>kv \<in> set tr. raw k1 < raw (fst kv)"
    using Cons.prems(1) x by (simp_all add: tree_inv_Cons)
  have na: "a \<in> set tr \<Longrightarrow> raw k1 < raw (fst a)" using lo by blast
  have nb: "b \<in> set tr \<Longrightarrow> raw k1 < raw (fst b)" using lo by blast
  consider "a = x" "b = x" | "a = x" "b \<in> set tr" | "a \<in> set tr" "b = x"
    | "a \<in> set tr" "b \<in> set tr"
    using Cons.prems(2,3) by auto
  then show ?case
  proof cases
    case 1
    then show ?thesis by simp
  next
    case 2
    then show ?thesis using nb Cons.prems(4) x by simp
  next
    case 3
    then show ?thesis using na Cons.prems(4) x by simp
  next
    case 4
    then show ?thesis using Cons.IH [OF inv] Cons.prems(4) by simp
  qed
qed

lemma find_is_least:
  "tree_inv tr \<Longrightarrow> List.find (\<lambda>kv. in_position (AtLeast k) (fst kv)) tr = Some e \<Longrightarrow>
   least_from tr k e"
proof (induction tr)
  case Nil
  then show ?case by simp
next
  case (Cons x tr)
  obtain k1 v1 where x: "x = (k1, v1)" by (cases x)
  have inv: "tree_inv tr" and lo: "\<forall>kv \<in> set tr. raw k1 < raw (fst kv)"
    using Cons.prems(1) x by (simp_all add: tree_inv_Cons)
  show ?case
  proof (cases "itemCompare k k1 \<le> 0")
    case True
    then have "e = x" using Cons.prems(2) x by simp
    then show ?thesis using True lo x
      by (auto simp: least_from_def itemCompare_le)
  next
    case False
    then have "List.find (\<lambda>kv. in_position (AtLeast k) (fst kv)) tr = Some e"
      using Cons.prems(2) x by simp
    then have "least_from tr k e" using Cons.IH [OF inv] by simp
    then show ?thesis using False x by (auto simp: least_from_def)
  qed
qed

lemma Seek_result:
  "Iterator_Seek s w0 k =
     (case List.find (\<lambda>kv. in_position (AtLeast k) (fst kv)) (Store_t s) of
        None \<Rightarrow> Inr (w0\<lparr>Iterator_e := Some \<lparr>enum_err = Some io_EOF, enum_pos = AtLeast k\<rparr>,
                 currK := nil_iface, currV := nil_iface, currErr := Some io_EOF\<rparr>)
      | Some (k', v') \<Rightarrow> Inr (w0\<lparr>Iterator_e := Some \<lparr>enum_err = None, enum_pos = Greater k'\<rparr>,
                 currK := bytes_iface k', currV := bytes_iface v', currErr := None\<rparr>))"
  by (simp add: Iterator_Seek_def Iterator_Next_def Enumerator_Next_def Tree_Seek_def
      split: option.splits prod.splits)

lemma Seek_positions:
  assumes "tree_inv (Store_t s)"
  shows "\<exists>w. Iterator_Seek s w0 k = Inr w \<and>
     ((Iterator_Current w = Inr (None, None, False) \<and>
       (\<forall>kv \<in> set (Store_t s). itemCompare k (fst kv) > 0)) \<or>
      (\<exists>e. Iterator_Current w = Inr (fst e, snd e, True) \<and> least_from (Store_t s) k e))"
proof (cases "List.find (\<lambda>kv. in_position (AtLeast k) (fst kv)) (Store_t s)")
  case None
  then have "\<forall>kv \<in> set (Store_t s). itemCompare k (fst kv) > 0"
    by (auto simp: find_None_iff)
  then show ?thesis using None
    by (simp add: Seek_result Iterator_Current_def)
next
  case (Some e)
  have "least_from (Store_t s) k e" using find_is_least [OF assms Some] .
  then show ?thesis using Some
    by (cases e) (auto simp: Seek_result Iterator_Current_def)
qed

lemma least_from_hit:
  assumes "tree_inv tr" "e \<in> set tr" "itemCompare k (fst e) = 0" "least_from tr k e'"
  shows "e' = e"
proof -
  have ke: "raw k = raw (fst e)" using assms(3) by (simp add: itemCompare_eq)
  have mem: "e' \<in> set tr" and lo: "raw k \<le> raw (fst e')"
    and least: "\<forall>kv \<in> set tr. raw k \<le> raw (fst kv) \<longrightarrow> raw (fst e') \<le> raw (fst kv)"
    using assms(4) by (simp_all add: least_from_def itemCompare_le)
  have "raw (fst e') \<le> raw (fst e)" using least assms(2) ke by auto
  then have "raw (fst e') = raw (fst e)" using lo ke by simp
  then show ?thesis using tree_inv_unique [OF assms(1) mem assms(2)] by simp
qed

lemma SeekFirst_collect:
  assumes "tree_inv (Store_t s)"
  shows "\<exists>w. Iterator_SeekFirst s w0 = Inr w \<and>
           collect (Suc (length (Store_t s))) s w = Some (Inr (Store_t s))"
proof (cases "Store_t s")
  case Nil
  then show ?thesis
    by (simp add: Iterator_SeekFirst_def Tree_SeekFirst_def Iterator_Next_def Iterator_Current_def)
next
  case (Cons a post)
  obtain k v where a: "a = (k, v)" by (cases a)
  let ?w = "w0\<lparr>currK := bytes_iface k, currV := bytes_iface v, currErr := None,
        Iterator_e := Some \<lparr>enum_err = None, enum_pos = Greater k\<rparr>\<rparr>"
  have sf: "Iterator_SeekFirst s w0 = Inr ?w"
    using Cons a
    by (simp add: Iterator_SeekFirst_def Tree_SeekFirst_def Iterator_Next_def Enumerator_Next_def)
  have p: "positioned ?w k v" by (simp add: positioned_def)
  have "collect (Suc (Suc (length post))) s ?w = Some (Inr ((k, v) # post))"
    using collect_positioned [OF p, of "[]" post s] assms Cons a by simp
  then show ?thesis using sf Cons a by simp
qed

text \<open>
  Claim C5. On a store whose map is in strictly ascending key order, the traversal that
  starts with \<^verbatim>\<open>SeekFirst\<close> ends and visits exactly the entries of the map, each once, in
  strictly ascending order of \<open>itemCompare\<close> (for keys k1, k2, k3: k1, then k2, then
  k3). \<^verbatim>\<open>Seek\<close> of a key leaves the iterator exhausted when every key of the map is
  smaller, and otherwise on the entry with the least key at or after the sought key;
  when the sought key is in the map, that is its own entry.
\<close>

theorem SeekFirst_ascending_Seek_least:
  assumes "tree_inv (Store_t s)"
  shows "(\<exists>w r. Iterator_SeekFirst s w0 = Inr w \<and>
            collect (Suc (length (Store_t s))) s w = Some (Inr r) \<and> r = Store_t s \<and>
            sorted_wrt (\<lambda>a b. itemCompare (fst a) (fst b) < 0) r) \<and>
         (\<exists>w. Iterator_Seek s w1 k = Inr w \<and>
            ((Iterator_Current w = Inr (None, None, False) \<and>
              (\<forall>kv \<in> set (Store_t s). itemCompare k (fst kv) > 0)) \<or>
             (\<exists>e. Iterator_Current w = Inr (fst e, snd e, True) \<and> least_from (Store_t s) k e))) \<and>
         (\<forall>e \<in> set (Store_t s). itemCompare k (fst e) = 0 \<longrightarrow>
            (\<exists>w. Iterator_Seek s w1 k = Inr w \<and> Iterator_Current w = Inr (fst e, snd e, True)))"
proof -
  obtain w' where w': "Iterator_SeekFirst s w0 = Inr w'"
      "collect (Suc (length (Store_t s))) s w' = Some (Inr (Store_t s))"
    using SeekFirst_collect [OF assms, of w0] by blast
  have srt: "sorted_wrt (\<lambda>a b. itemCompare (fst a) (fst b) < 0) (Store_t s)"
    using assms by (simp add: tree_inv_def)
  have a: "\<exists>w r. Iterator_SeekFirst s w0 = Inr w \<and>
            collect (Suc (length (Store_t s))) s w = Some (Inr r) \<and> r = Store_t s \<and>
            sorted_wrt (\<lambda>a b. itemCompare (fst a) (fst b) < 0) r"
    using w' srt by blast
  have b: "\<exists>w. Iterator_Seek s w1 k = Inr w \<and>
            ((Iterator_Current w = Inr (None, None, False) \<and>
              (\<forall>kv \<in> set (Store_t s). itemCompare k (fst kv) > 0)) \<or>
             (\<exists>e. Iterator_Current w = Inr (fst e, snd e, True) \<and> least_from (Store_t s) k e))"
    by (rule Seek_positions [OF assms])
  have c: "\<forall>e \<in> set (Store_t s). itemCompare k (fst e) = 0 \<longrightarrow>
            (\<exists>w. Iterator_Seek s w1 k = Inr w \<and> Iterator_Current w = Inr (fst e, snd e, True))"
  proof (intro ballI impI)
    fix e
    assume mem: "e \<in> set (Store_t s)" and hit: "itemCompare k (fst e) = 0"
    obtain w where w: "Iterator_Seek s w1 k = Inr w"
     "(Iterator_Current w = Inr (None, None, False) \<and>
        (\<forall>kv \<in> set (Store_t s). itemCompare k (fst kv) > 0)) \<or>
      (\<exists>e. Iterator_Current w = Inr (fst e, snd e, True) \<and> least_from (Store_t s) k e)"
      using b by blast
    have "\<not> itemCompare k (fst e) > 0" using hit by simp
    then have "\<not> (\<forall>kv \<in> set (Store_t s). itemCompare k (fst kv) > 0)"
      using mem by blast
    then obtain e' where e': "Iterator_Current w = Inr (fst e', snd e', True)"
      "least_from (Store_t s) k e'" using w(2) by blast
    have "e' = e" using least_from_hit [OF assms mem hit e'(2)] .
    then show "\<exists>w. Iterator_Seek s w1 k = Inr w \<and> Iterator_Current w = Inr (fst e, snd e, True)"
      using w(1) e'(1) by blast
  qed
  show ?thesis by (rule conjI [OF a conjI [OF b c]])
qed

theorem SeekFirst_ascending_Seek_least_witness:
  "tree_inv (Store_t \<lparr>Store_t = [(Some [1], Some [7]), (Some [2], Some [8]), (Some [3], Some [9])]\<rparr>) \<and>
   (\<exists>w. Iterator_SeekFirst
          \<lparr>Store_t = [(Some [1], Some [7]), (Some [2], Some [8]), (Some [3], Some [9])]\<rparr>
          \<lparr>Iterator_e = None, currK = nil_iface, currV = nil_iface, currErr = None\<rparr> = Inr w \<and>
        collect (Suc (Suc (Suc (Suc 0))))
          \<lparr>Store_t = [(Some [1], Some [7]), (Some [2], Some [8]), (Some [3], Some [9])]\<rparr> w =
        Some (Inr [(Some [1], Some [7]), (Some [2], Some [8]), (Some [3], Some [9])])) \<and>
   (\<exists>w. Iterator_Seek
          \<lparr>Store_t = [(Some [1], Some [7]), (Some [2], Some [8]), (Some [3], Some [9])]\<rparr>
          \<lparr>Iterator_e = None, currK = nil_iface, currV = nil_iface, currErr = None\<rparr>
          (Some [2]) = Inr w \<and>
        Iterator_Current w = Inr (Some [2], Some [8], True))"
proof -
  have h: "tree_inv (Store_t
      \<lparr>Store_t = [(Some [1], Some [7]), (Some [2], Some [8]), (Some [3], Some [9])]\<rparr>)"
    by (simp add: tree_inv_def itemCompare_def)
  show ?thesis
    using h SeekFirst_ascending_Seek_least [OF h,
        of "\<lparr>Iterator_e = None, currK = nil_iface, currV = nil_iface, currErr = None\<rparr>"
           "\<lparr>Iterator_e = None, currK = nil_iface, currV = nil_iface, currErr = None\<rparr>"
           "Some [2]"]
    by (simp add: itemCompare_def)
qed

section \<open>Execute: the merge loop and the replay of the plain writes\<close>

lemma write_loop_replay:
  "i + length kl \<le> length vl \<Longrightarrow>
   write_loop kl vl i tr = Inr (replay tr (zip kl (drop i vl)))"
proof (induction kl arbitrary: i tr)
  case Nil
  show ?case by simp
next
  case (Cons k kl)
  have i: "i < length vl" using Cons.prems by simp
  have d: "drop i vl = vl ! i # drop (Suc i) vl" using i by (simp add: Cons_nth_drop_Suc)
  have n: "Suc i + length kl \<le> length vl" using Cons.prems by simp
  show ?case
    using i Cons.IH [OF n] by (simp add: d put_def Let_def)
qed

lemma replay_append: "replay tr (xs @ ys) = replay (replay tr xs) ys"
  by (induction xs arbitrary: tr) auto

lemma tree_inv_replay: "tree_inv tr \<Longrightarrow> tree_inv (replay tr kvs)"
  by (induction kvs arbitrary: tr) (auto simp: tree_inv_put)

lemma lookup_replay_other:
  "tree_inv tr \<Longrightarrow> \<forall>kv \<in> set kvs. raw (fst kv) \<noteq> raw k \<Longrightarrow>
   lookup (replay tr kvs) k = lookup tr k"
proof (induction kvs arbitrary: tr)
  case Nil
  show ?case by simp
next
  case (Cons a kvs)
  obtain k1 v1 where a: "a = (k1, v1)" by (cases a)
  have ne: "raw k \<noteq> raw k1" using Cons.prems(2) a by auto
  have rest: "\<forall>kv \<in> set kvs. raw (fst kv) \<noteq> raw k" using Cons.prems(2) by simp
  have "lookup (replay (put tr k1 v1) kvs) k = lookup (put tr k1 v1) k"
    using Cons.IH [OF tree_inv_put [OF Cons.prems(1)] rest] .
  then show ?case using a ne by (simp add: lookup_put [OF Cons.prems(1)])
qed

lemma lookup_replay_last:
  assumes "tree_inv tr" "raw k0 = raw k" "\<forall>kv \<in> set after. raw (fst kv) \<noteq> raw k"
  shows "lookup (replay tr (before @ (k0, v0) # after)) k = v0"
proof -
  have i1: "tree_inv (replay tr before)" using assms(1) by (rule tree_inv_replay)
  have i2: "tree_inv (put (replay tr before) k0 v0)" using i1 by (rule tree_inv_put)
  have "lookup (replay tr (before @ (k0, v0) # after)) k =
        lookup (put (replay tr before) k0 v0) k"
    using lookup_replay_other [OF i2 assms(3)] by (simp add: replay_append)
  also have "\<dots> = v0" using assms(2) by (simp add: lookup_put [OF i1])
  finally show ?thesis .
qed

lemma lookup_raw: "raw k = raw k' \<Longrightarrow> lookup tr k = lookup tr k'"
  by (induction tr) (auto simp: lookup_Nil lookup_Cons)

lemma merge_loop_append:
  "merge_loop m (pre @ rest) tr =
     (case merge_loop m pre tr of
        Inr (None, t1) \<Rightarrow> merge_loop m rest t1
      | r \<Rightarrow> r)"
proof (induction pre arbitrary: tr)
  case Nil
  show ?case by simp
next
  case (Cons key pre)
  show ?case
    unfolding append_Cons merge_loop_Cons
    by (simp add: Cons.IH split: option.splits prod.splits)
qed

lemma tree_inv_merge_loop:
  "tree_inv tr \<Longrightarrow> merge_loop m order tr = Inr (er, tr') \<Longrightarrow> tree_inv tr'"
proof (induction order arbitrary: tr)
  case Nil
  then show ?case by simp
next
  case (Cons key rest)
  show ?case
  proof (cases "m key")
    case None
    then show ?thesis using Cons by (simp del: merge_loop.simps(2) add: merge_loop_Cons)
  next
    case (Some mc)
    obtain b' e where r: "AssociativeMergeChain_Merge mc (Some key) (lookup tr (Some key)) = (b', e)"
      by (cases "AssociativeMergeChain_Merge mc (Some key) (lookup tr (Some key))")
    show ?thesis
    proof (cases e)
      case None
      then have "merge_loop m rest (put tr (Some key) b') = Inr (er, tr')"
        using Cons.prems(2) Some r by (simp del: merge_loop.simps(2) add: merge_loop_Cons)
      then show ?thesis using Cons.IH [OF tree_inv_put [OF Cons.prems(1)]] by blast
    next
      case (Some e')
      then have "tr' = tr" using Cons.prems(2) \<open>m key = Some mc\<close> r by (simp del: merge_loop.simps(2) add: merge_loop_Cons)
      then show ?thesis using Cons.prems(1) by simp
    qed
  qed
qed

lemma lookup_merge_loop:
  "tree_inv tr \<Longrightarrow> distinct order \<Longrightarrow> merge_loop m order tr = Inr (None, tr') \<Longrightarrow>
   lookup tr' k =
     (case (if raw k \<in> set order then m (raw k) else None) of
        None \<Rightarrow> lookup tr k
      | Some mc \<Rightarrow> fst (AssociativeMergeChain_Merge mc (Some (raw k)) (lookup tr k)))"
proof (induction order arbitrary: tr)
  case Nil
  then show ?case by simp
next
  case (Cons key rest)
  have d: "distinct rest" and nk: "key \<notin> set rest" using Cons.prems(2) by simp_all
  show ?case
  proof (cases "m key")
    case None
    then have ml: "merge_loop m rest tr = Inr (None, tr')"
      using Cons.prems(3) by (simp del: merge_loop.simps(2) add: merge_loop_Cons)
    show ?thesis using Cons.IH [OF Cons.prems(1) d ml] None by auto
  next
    case (Some mc)
    obtain b' e where r: "AssociativeMergeChain_Merge mc (Some key) (lookup tr (Some key)) = (b', e)"
      by (cases "AssociativeMergeChain_Merge mc (Some key) (lookup tr (Some key))")
    have e: "e = None" using Cons.prems(3) Some r by (cases e) (simp_all del: merge_loop.simps(2) add: merge_loop_Cons)
    have ml: "merge_loop m rest (put tr (Some key) b') = Inr (None, tr')"
      using Cons.prems(3) Some r e by (simp del: merge_loop.simps(2) add: merge_loop_Cons)
    have ih: "lookup tr' k =
     (case (if raw k \<in> set rest then m (raw k) else None) of
        None \<Rightarrow> lookup (put tr (Some key) b') k
      | Some mc \<Rightarrow> fst (AssociativeMergeChain_Merge mc (Some (raw k)) (lookup (put tr (Some key) b') k)))"
      using Cons.IH [OF tree_inv_put [OF Cons.prems(1)] d ml] .
    show ?thesis
    proof (cases "raw k = key")
      case True
      have "lookup tr' k = b'" using ih True nk by (simp add: lookup_put [OF Cons.prems(1)])
      moreover have "lookup tr k = lookup tr (Some key)" using True by (intro lookup_raw) simp
      ultimately show ?thesis using True Some r by simp
    next
      case False
      then have eq: "lookup (put tr (Some key) b') k = lookup tr k"
        by (simp add: lookup_put [OF Cons.prems(1)])
      show ?thesis using ih False unfolding eq by simp
    qed
  qed
qed

lemma Execute_merged:
  assumes "batch_inv w" "merge_loop (merge_map w) order (Store_t s) = Inr (None, t1)"
  shows "Batch_Execute order w s =
           Inr (None, cleared w, s\<lparr>Store_t := replay t1 (zip (ks w) (vs w))\<rparr>)"
proof -
  have "write_loop (ks w) (vs w) 0 t1 = Inr (replay t1 (zip (ks w) (vs w)))"
    using write_loop_replay [of 0 "ks w" "vs w" t1] assms(1) by (simp add: batch_inv_def)
  then show ?thesis
    using assms(2) by (simp add: Batch_Execute_def cleared_def merge_map_def)
qed

lemma Execute_failed:
  assumes "merge_loop (merge_map w) order (Store_t s) = Inr (Some er, t1)"
  shows "Batch_Execute order w s = Inr (Some er, cleared w, s\<lparr>Store_t := t1\<rparr>)"
  using assms by (simp add: Batch_Execute_def cleared_def merge_map_def)

lemma Execute_success_shape:
  assumes "batch_inv w" "Batch_Execute order w s = Inr (None, w', s')"
  shows "\<exists>t1. merge_loop (merge_map w) order (Store_t s) = Inr (None, t1) \<and>
           Store_t s' = replay t1 (zip (ks w) (vs w))"
proof -
  obtain er t1 where m: "merge_loop (merge_map w) order (Store_t s) = Inr (er, t1)"
    using merge_loop_returns by blast
  show ?thesis
  proof (cases er)
    case None
    then show ?thesis using Execute_merged [OF assms(1), of order s t1] m assms(2) by auto
  next
    case (Some e)
    then show ?thesis using Execute_failed [of w order s e t1] m assms(2) by simp
  qed
qed

lemma chain_fails_at:
  "AssociativeMergeChain_Merge c1 k v = (b1, None) \<Longrightarrow> oper k b1 = (b2, Some er) \<Longrightarrow>
   AssociativeMergeChain_Merge (c1 @ oper # c2) k v = (None, Some er)"
proof (induction c1 arbitrary: v)
  case Nil
  then show ?case by simp
next
  case (Cons a c1)
  obtain x e where a: "a k v = (x, e)" by (cases "a k v")
  show ?case
  proof (cases e)
    case None
    then show ?thesis using Cons a by simp
  next
    case (Some e')
    then show ?thesis using Cons.prems(1) a by simp
  qed
qed

lemma chain_snoc:
  "AssociativeMergeChain_Merge (c @ [oper]) k v =
     (case AssociativeMergeChain_Merge c k v of
        (b, Some e) \<Rightarrow> (None, Some e)
      | (b, None) \<Rightarrow>
          (case oper k b of (b', Some e) \<Rightarrow> (None, Some e) | (b', None) \<Rightarrow> (b', None)))"
proof (induction c arbitrary: v)
  case Nil
  show ?case by (simp split: prod.splits option.splits)
next
  case (Cons a c)
  obtain x e where a: "a k v = (x, e)" by (cases "a k v")
  show ?case using a Cons.IH [of x] by (cases e) simp_all
qed

lemma merge_loop_chain_succeeded:
  "tree_inv tr \<Longrightarrow> distinct order \<Longrightarrow> merge_loop m order tr = Inr (None, tr') \<Longrightarrow>
   key \<in> set order \<Longrightarrow> m key = Some mc \<Longrightarrow>
   snd (AssociativeMergeChain_Merge mc (Some key) (lookup tr (Some key))) = None"
proof (induction order arbitrary: tr)
  case Nil
  then show ?case by simp
next
  case (Cons h rest)
  have d: "distinct rest" and nk: "h \<notin> set rest" using Cons.prems(2) by simp_all
  show ?case
  proof (cases "m h")
    case None
    then have ml: "merge_loop m rest tr = Inr (None, tr')"
      using Cons.prems(3) by (simp del: merge_loop.simps(2) add: merge_loop_Cons)
    have "key \<in> set rest" using Cons.prems(4,5) None by auto
    then show ?thesis using Cons.IH [OF Cons.prems(1) d ml _ Cons.prems(5)] by simp
  next
    case (Some hc)
    obtain b' e where r: "AssociativeMergeChain_Merge hc (Some h) (lookup tr (Some h)) = (b', e)"
      by (cases "AssociativeMergeChain_Merge hc (Some h) (lookup tr (Some h))")
    have e: "e = None" using Cons.prems(3) Some r
      by (cases e) (simp_all del: merge_loop.simps(2) add: merge_loop_Cons)
    have ml: "merge_loop m rest (put tr (Some h) b') = Inr (None, tr')"
      using Cons.prems(3) Some r e by (simp del: merge_loop.simps(2) add: merge_loop_Cons)
    show ?thesis
    proof (cases "key = h")
      case True
      then show ?thesis using Some Cons.prems(5) r e by simp
    next
      case False
      then have mem: "key \<in> set rest" using Cons.prems(4) by simp
      have eq: "lookup (put tr (Some h) b') (Some key) = lookup tr (Some key)"
        using False by (simp add: lookup_put [OF Cons.prems(1)])
      show ?thesis
        using Cons.IH [OF tree_inv_put [OF Cons.prems(1)] d ml mem Cons.prems(5)]
        unfolding eq .
    qed
  qed
qed

lemma Merge_registers:
  "Batch_Merge w0 k0 oper = Inr w1 \<Longrightarrow> chain_at (ms w1) (raw k0) = chain_at (ms w0) (raw k0) @ [oper]"
  by (auto simp: Batch_Merge_def Let_def chain_at_def split: option.splits)

lemma Execute_merge_result:
  assumes "tree_inv (Store_t s)" "batch_inv w" "distinct order" "key \<in> set order"
    and "merge_map w key = Some mc"
    and "Batch_Execute order w s = Inr (None, w', s')"
    and "\<forall>k' \<in> set (ks w). raw k' \<noteq> key"
  shows "\<exists>cur b. Store_Get s (Some key) = Inr (cur, None) \<and>
           AssociativeMergeChain_Merge mc (Some key) cur = (b, None) \<and>
           Store_Get s' (Some key) = Inr (b, None)"
proof -
  obtain t1 where t1: "merge_loop (merge_map w) order (Store_t s) = Inr (None, t1)"
      "Store_t s' = replay t1 (zip (ks w) (vs w))"
    using Execute_success_shape [OF assms(2,6)] by blast
  let ?cur = "lookup (Store_t s) (Some key)"
  obtain b e where r: "AssociativeMergeChain_Merge mc (Some key) ?cur = (b, e)"
    by (cases "AssociativeMergeChain_Merge mc (Some key) ?cur")
  have e: "e = None"
    using merge_loop_chain_succeeded [OF assms(1,3) t1(1) assms(4,5)] r by simp
  have l1: "lookup t1 (Some key) = b"
    using lookup_merge_loop [OF assms(1,3) t1(1), of "Some key"] assms(4,5) r by simp
  have inv1: "tree_inv t1" using tree_inv_merge_loop [OF assms(1) t1(1)] .
  have other: "\<forall>kv \<in> set (zip (ks w) (vs w)). raw (fst kv) \<noteq> raw (Some key)"
    using assms(7) by (auto dest: set_zip_leftD)
  have "lookup (Store_t s') (Some key) = b"
    unfolding t1(2) using lookup_replay_other [OF inv1 other] l1 by simp
  then show ?thesis using r e by (simp add: Store_Get_lookup)
qed

section \<open>Execute: what the map holds afterwards\<close>

lemma Tree_Get_Set:
  "Tree_Get (Tree_Set tr k v) k' =
     (if raw k' = raw k then (bytes_iface v, True) else Tree_Get tr k')"
  by (induction tr) (auto simp: itemCompare_eq)

lemma Tree_Get_Delete:
  "tree_inv tr \<Longrightarrow>
   Tree_Get (Tree_Delete tr k) k' =
     (if raw k' = raw k then (nil_iface, False) else Tree_Get tr k')"
proof (induction tr)
  case Nil
  show ?case by simp
next
  case (Cons a tr)
  obtain k1 v1 where a: "a = (k1, v1)" by (cases a)
  have inv: "tree_inv tr" and lo: "\<forall>kv \<in> set tr. raw k1 < raw (fst kv)"
    using Cons.prems a by (simp_all add: tree_inv_Cons)
  show ?case
  proof (cases "raw k = raw k1")
    case True
    have "\<forall>kv \<in> set tr. itemCompare k' (fst kv) \<noteq> 0" if "raw k' = raw k"
      using lo True that by (auto simp: itemCompare_eq)
    then have "Tree_Get tr k' = (nil_iface, False)" if "raw k' = raw k"
      using that Tree_Get_absent [of tr k'] by simp
    then show ?thesis using a True by (auto simp: itemCompare_eq)
  next
    case False
    then show ?thesis using a Cons.IH [OF inv] by (auto simp: itemCompare_eq)
  qed
qed

lemma Tree_Get_put:
  "tree_inv tr \<Longrightarrow>
   Tree_Get (put tr k v) k' = (if raw k' = raw k then found v else Tree_Get tr k')"
  by (cases v) (simp_all add: put_def Tree_Get_Set Tree_Get_Delete)

lemma Tree_Get_none:
  "Tree_Get tr k = (nil_iface, False) \<Longrightarrow> \<forall>kv \<in> set tr. itemCompare k (fst kv) \<noteq> 0"
  by (induction tr) (force split: if_splits)+

lemma Tree_Get_replay_other:
  "tree_inv tr \<Longrightarrow> \<forall>kv \<in> set kvs. raw (fst kv) \<noteq> raw k \<Longrightarrow>
   Tree_Get (replay tr kvs) k = Tree_Get tr k"
proof (induction kvs arbitrary: tr)
  case Nil
  show ?case by simp
next
  case (Cons a kvs)
  obtain k1 v1 where a: "a = (k1, v1)" by (cases a)
  have ne: "raw k \<noteq> raw k1" using Cons.prems(2) a by auto
  have rest: "\<forall>kv \<in> set kvs. raw (fst kv) \<noteq> raw k" using Cons.prems(2) by simp
  have "Tree_Get (replay (put tr k1 v1) kvs) k = Tree_Get (put tr k1 v1) k"
    using Cons.IH [OF tree_inv_put [OF Cons.prems(1)] rest] .
  then show ?case using a ne by (simp add: Tree_Get_put [OF Cons.prems(1)])
qed

lemma Tree_Get_replay_last:
  assumes "tree_inv tr" "raw k0 = raw k" "\<forall>kv \<in> set after. raw (fst kv) \<noteq> raw k"
  shows "Tree_Get (replay tr (before @ (k0, v0) # after)) k = found v0"
proof -
  have i1: "tree_inv (replay tr before)" using assms(1) by (rule tree_inv_replay)
  have i2: "tree_inv (put (replay tr before) k0 v0)" using i1 by (rule tree_inv_put)
  have "Tree_Get (replay tr (before @ (k0, v0) # after)) k =
        Tree_Get (put (replay tr before) k0 v0) k"
    using Tree_Get_replay_other [OF i2 assms(3)] by (simp add: replay_append)
  also have "\<dots> = found v0" using assms(2) by (simp add: Tree_Get_put [OF i1])
  finally show ?thesis .
qed

lemma merge_writes_cong:
  "\<forall>key \<in> set order. lookup tr1 (Some key) = lookup tr (Some key) \<Longrightarrow>
   merge_writes m order tr1 = merge_writes m order tr"
  by (induction order) (auto split: option.splits)

lemma merge_writes_keys:
  "set order \<subseteq> dom m \<Longrightarrow> map fst (merge_writes m order tr) = map Some order"
  by (induction order) (auto split: option.splits)

lemma merge_loop_replay:
  "tree_inv tr \<Longrightarrow> distinct order \<Longrightarrow> merge_loop m order tr = Inr (None, t1) \<Longrightarrow>
   t1 = replay tr (merge_writes m order tr)"
proof (induction order arbitrary: tr)
  case Nil
  then show ?case by simp
next
  case (Cons key rest)
  have d: "distinct rest" and nk: "key \<notin> set rest" using Cons.prems(2) by simp_all
  show ?case
  proof (cases "m key")
    case None
    then have ml: "merge_loop m rest tr = Inr (None, t1)"
      using Cons.prems(3) by (simp del: merge_loop.simps(2) add: merge_loop_Cons)
    show ?thesis using Cons.IH [OF Cons.prems(1) d ml] None by simp
  next
    case (Some mc)
    obtain b' e where r: "AssociativeMergeChain_Merge mc (Some key) (lookup tr (Some key)) = (b', e)"
      by (cases "AssociativeMergeChain_Merge mc (Some key) (lookup tr (Some key))")
    have e: "e = None" using Cons.prems(3) Some r
      by (cases e) (simp_all del: merge_loop.simps(2) add: merge_loop_Cons)
    let ?tr1 = "put tr (Some key) b'"
    have ml: "merge_loop m rest ?tr1 = Inr (None, t1)"
      using Cons.prems(3) Some r e by (simp del: merge_loop.simps(2) add: merge_loop_Cons)
    have same: "\<forall>k' \<in> set rest. lookup ?tr1 (Some k') = lookup tr (Some k')"
      using nk by (auto simp: lookup_put [OF Cons.prems(1)])
    have "t1 = replay ?tr1 (merge_writes m rest ?tr1)"
      using Cons.IH [OF tree_inv_put [OF Cons.prems(1)] d ml] .
    also have "merge_writes m rest ?tr1 = merge_writes m rest tr"
      using same by (rule merge_writes_cong)
    finally show ?thesis using Some r by simp
  qed
qed

lemma merge_writes_append:
  "merge_writes m (xs @ ys) tr = merge_writes m xs tr @ merge_writes m ys tr"
  by (induction xs) (auto split: option.splits)

lemma merge_writes_in: "kv \<in> set (merge_writes m order tr) \<Longrightarrow> raw (fst kv) \<in> set order"
  by (induction order) (auto split: option.splits)

lemma Tree_Get_merge_loop:
  assumes "tree_inv tr" "distinct order" "merge_loop m order tr = Inr (None, t1)"
    and "key \<in> set order" "m key = Some mc"
  shows "Tree_Get t1 (Some key) =
           found (fst (AssociativeMergeChain_Merge mc (Some key) (lookup tr (Some key))))"
proof -
  obtain pre post where sp: "order = pre @ key # post"
    using assms(4) by (auto dest: split_list)
  have np: "key \<notin> set post" using assms(2) sp by simp
  have other: "\<forall>kv \<in> set (merge_writes m post tr). raw (fst kv) \<noteq> raw (Some key)"
    using np merge_writes_in [of _ m post tr] by auto
  have "t1 = replay tr (merge_writes m order tr)"
    using assms(1,2,3) by (rule merge_loop_replay)
  also have "merge_writes m order tr =
      merge_writes m pre tr @
      (Some key, fst (AssociativeMergeChain_Merge mc (Some key) (lookup tr (Some key)))) #
      merge_writes m post tr"
    using sp assms(5) by (simp add: merge_writes_append)
  finally show ?thesis
    using Tree_Get_replay_last [OF assms(1) refl other] by simp
qed

lemma Execute_merge_entry:
  assumes "tree_inv (Store_t s)" "batch_inv w" "range_order (merge_map w) order"
    and "merge_map w key = Some mc"
    and "Batch_Execute order w s = Inr (None, w', s')"
    and "\<forall>k' \<in> set (ks w). raw k' \<noteq> key"
  shows "tree_inv (Store_t s') \<and>
         Tree_Get (Store_t s') (Some key) =
           found (fst (AssociativeMergeChain_Merge mc (Some key) (lookup (Store_t s) (Some key))))"
proof -
  have d: "distinct order" and mem: "key \<in> set order"
    using assms(3,4) by (auto simp: range_order_def)
  obtain t1 where t1: "merge_loop (merge_map w) order (Store_t s) = Inr (None, t1)"
      "Store_t s' = replay t1 (zip (ks w) (vs w))"
    using Execute_success_shape [OF assms(2,5)] by blast
  have inv1: "tree_inv t1" using tree_inv_merge_loop [OF assms(1) t1(1)] .
  have other: "\<forall>kv \<in> set (zip (ks w) (vs w)). raw (fst kv) \<noteq> raw (Some key)"
    using assms(6) by (auto dest: set_zip_leftD)
  have "Tree_Get (Store_t s') (Some key) = Tree_Get t1 (Some key)"
    unfolding t1(2) using inv1 other by (rule Tree_Get_replay_other)
  also have "\<dots> = found (fst (AssociativeMergeChain_Merge mc (Some key) (lookup (Store_t s) (Some key))))"
    using assms(1) d t1(1) mem assms(4) by (rule Tree_Get_merge_loop)
  finally show ?thesis using tree_inv_replay [OF inv1] t1(2) by simp
qed

lemma Seek_absent_key:
  assumes "tree_inv (Store_t s)" "\<forall>kv \<in> set (Store_t s). itemCompare k (fst kv) \<noteq> 0"
    and "then_do (Store_Iterator s k) Iterator_Current = Inr (k', v', True)"
  shows "itemCompare k k' < 0"
proof -
  obtain w where w: "Iterator_Seek s
        \<lparr>Iterator_e = None, currK = nil_iface, currV = nil_iface, currErr = None\<rparr> k = Inr w"
     "(Iterator_Current w = Inr (None, None, False) \<and>
        (\<forall>kv \<in> set (Store_t s). itemCompare k (fst kv) > 0)) \<or>
      (\<exists>e. Iterator_Current w = Inr (fst e, snd e, True) \<and> least_from (Store_t s) k e)"
    using Seek_positions [OF assms(1)] by blast
  have cur: "Iterator_Current w = Inr (k', v', True)"
    using assms(3) w(1) by (simp add: then_do_def Store_Iterator_def)
  then obtain e where e: "Iterator_Current w = Inr (fst e, snd e, True)" "least_from (Store_t s) k e"
    using w(2) by auto
  have k': "fst e = k'" using cur e(1) by simp
  have "e \<in> set (Store_t s)" "itemCompare k (fst e) \<le> 0"
    using e(2) by (simp_all add: least_from_def)
  moreover have "itemCompare k (fst e) \<noteq> 0" using assms(2) \<open>e \<in> set (Store_t s)\<close> by blast
  ultimately show ?thesis using k' by simp
qed

text \<open>
  Claim C1. When \<^verbatim>\<open>Execute\<close> returns the nil error, in whatever order the range yields
  the keys of the merge map, the store is the map from before the batch after these
  writes, in this order: first, for every key of the merge map, once, the result of its
  chain on the value the key had before the batch (a value is set, nil deletes the
  key), then the pending writes in append order. Every chain returned the nil error.
  So when the last pending entry for a key is (k0, v0), that is, no later pending key
  has the bytes of k0, the map holds v0 for the key, or no entry when v0 is nil, and
  \<^verbatim>\<open>Get\<close> returns v0, whatever the merges and the earlier entries for the key did.
\<close>

theorem Execute_merges_then_writes:
  assumes "tree_inv (Store_t s)" "batch_inv w" "range_order (merge_map w) order"
    and "Batch_Execute order w s = Inr (None, w', s')"
  shows "Store_t s' =
           replay (Store_t s)
             (merge_writes (merge_map w) order (Store_t s) @ zip (ks w) (vs w)) \<and>
         map fst (merge_writes (merge_map w) order (Store_t s)) = map Some order \<and>
         (\<forall>key mc. merge_map w key = Some mc \<longrightarrow>
            snd (AssociativeMergeChain_Merge mc (Some key) (lookup (Store_t s) (Some key))) = None) \<and>
         (\<forall>ka k0 kb va v0 vb k.
            ks w = ka @ k0 # kb \<and> vs w = va @ v0 # vb \<and> length ka = length va \<and>
            raw k0 = raw k \<and> (\<forall>k' \<in> set kb. raw k' \<noteq> raw k) \<longrightarrow>
            Tree_Get (Store_t s') k = found v0 \<and> Store_Get s' k = Inr (v0, None))"
proof -
  have d: "distinct order" and dm: "set order = dom (merge_map w)"
    using assms(3) by (simp_all add: range_order_def)
  obtain t1 where t1: "merge_loop (merge_map w) order (Store_t s) = Inr (None, t1)"
      "Store_t s' = replay t1 (zip (ks w) (vs w))"
    using Execute_success_shape [OF assms(2,4)] by blast
  have inv1: "tree_inv t1" using tree_inv_merge_loop [OF assms(1) t1(1)] .
  have mw: "t1 = replay (Store_t s) (merge_writes (merge_map w) order (Store_t s))"
    using assms(1) d t1(1) by (rule merge_loop_replay)
  have a: "Store_t s' =
           replay (Store_t s)
             (merge_writes (merge_map w) order (Store_t s) @ zip (ks w) (vs w))"
    using t1(2) mw by (simp add: replay_append)
  have b: "map fst (merge_writes (merge_map w) order (Store_t s)) = map Some order"
    using dm by (intro merge_writes_keys) simp
  have c: "\<forall>key mc. merge_map w key = Some mc \<longrightarrow>
            snd (AssociativeMergeChain_Merge mc (Some key) (lookup (Store_t s) (Some key))) = None"
  proof (intro allI impI)
    fix key mc
    assume m: "merge_map w key = Some mc"
    then have "key \<in> set order" using dm by auto
    then show "snd (AssociativeMergeChain_Merge mc (Some key) (lookup (Store_t s) (Some key))) = None"
      using merge_loop_chain_succeeded [OF assms(1) d t1(1) _ m] by simp
  qed
  have e: "\<forall>ka k0 kb va v0 vb k.
            ks w = ka @ k0 # kb \<and> vs w = va @ v0 # vb \<and> length ka = length va \<and>
            raw k0 = raw k \<and> (\<forall>k' \<in> set kb. raw k' \<noteq> raw k) \<longrightarrow>
            Tree_Get (Store_t s') k = found v0 \<and> Store_Get s' k = Inr (v0, None)"
  proof (intro allI impI, elim conjE)
    fix ka k0 kb va v0 vb k
    assume h: "ks w = ka @ k0 # kb" "vs w = va @ v0 # vb" "length ka = length va"
      "raw k0 = raw k" "\<forall>k' \<in> set kb. raw k' \<noteq> raw k"
    have z: "zip (ks w) (vs w) = zip ka va @ (k0, v0) # zip kb vb"
      using h(1,2,3) by simp
    have other: "\<forall>kv \<in> set (zip kb vb). raw (fst kv) \<noteq> raw k"
      using h(5) by (auto dest: set_zip_leftD)
    have g: "Tree_Get (Store_t s') k = found v0"
      unfolding t1(2) z using Tree_Get_replay_last [OF inv1 h(4) other] .
    have "lookup (Store_t s') k = v0"
      unfolding t1(2) z using lookup_replay_last [OF inv1 h(4) other] .
    then have "Store_Get s' k = Inr (v0, None)" by (simp add: Store_Get_lookup)
    then show "Tree_Get (Store_t s') k = found v0 \<and> Store_Get s' k = Inr (v0, None)"
      using g by simp
  qed
  show ?thesis by (rule conjI [OF a conjI [OF b conjI [OF c e]]])
qed

text \<open>
  The spec's example, with a second merged key: \<^verbatim>\<open>Set(A, "1")\<close>,
  \<^verbatim>\<open>Merge(A, append "x")\<close>, \<^verbatim>\<open>Set(A, "2")\<close>, \<^verbatim>\<open>Merge(B, append "x")\<close> on a new batch,
  executed on the new store. The merges write \<^verbatim>\<open>"x"\<close> for both keys, from the absent
  values of before the batch; then \<^verbatim>\<open>Get(A)\<close> is \<^verbatim>\<open>"2"\<close> and B keeps \<^verbatim>\<open>"x"\<close>.
\<close>

theorem Execute_merges_then_writes_witness:
  "\<exists>w1 w2 w' s'.
     Batch_Merge (Batch_Set Store_NewBatch (Some [65]) (Some [49])) (Some [65]) op_append_x =
       Inr w1 \<and>
     Batch_Merge (Batch_Set w1 (Some [65]) (Some [50])) (Some [66]) op_append_x = Inr w2 \<and>
     Batch_Execute [[65], [66]] w2 StoreConstructor = Inr (None, w', s') \<and>
     merge_writes (merge_map w2) [[65], [66]] (Store_t StoreConstructor) =
       [(Some [65], Some [120]), (Some [66], Some [120])] \<and>
     Store_t s' = [(Some [65], Some [50]), (Some [66], Some [120])] \<and>
     Store_Get s' (Some [65]) = Inr (Some [50], None)"
proof -
  let ?w1 = "\<lparr>ks = [Some [65]], vs = [Some [49]], ms = Some [[65] \<mapsto> [op_append_x]]\<rparr>"
  let ?w2 = "\<lparr>ks = [Some [65], Some [65]], vs = [Some [49], Some [50]],
      ms = Some [[65] \<mapsto> [op_append_x], [66] \<mapsto> [op_append_x]]\<rparr>"
  let ?s' = "\<lparr>Store_t = [(Some [65], Some [50]), (Some [66], Some [120])]\<rparr>"
  have m1: "Batch_Merge (Batch_Set Store_NewBatch (Some [65]) (Some [49])) (Some [65])
      op_append_x = Inr ?w1"
    by (simp add: Batch_Merge_def Batch_Set_def Store_NewBatch_def chain_at_def)
  have m2: "Batch_Merge (Batch_Set ?w1 (Some [65]) (Some [50])) (Some [66]) op_append_x = Inr ?w2"
    by (simp add: Batch_Merge_def Batch_Set_def chain_at_def)
  have ex: "Batch_Execute [[65], [66]] ?w2 StoreConstructor = Inr (None, cleared ?w2, ?s')"
    by (simp add: Batch_Execute_def cleared_def StoreConstructor_def TreeNew_def
        op_append_x_def itemCompare_def)
  have h1: "tree_inv (Store_t StoreConstructor)"
    by (simp add: StoreConstructor_def TreeNew_def tree_inv_def)
  have h2: "batch_inv ?w2" by (simp add: batch_inv_def)
  have h3: "range_order (merge_map ?w2) [[65], [66]]"
    by (auto simp: range_order_def merge_map_def)
  have mw: "merge_writes (merge_map ?w2) [[65], [66]] (Store_t StoreConstructor) =
       [(Some [65], Some [120]), (Some [66], Some [120])]"
    by (simp add: merge_map_def StoreConstructor_def TreeNew_def lookup_def op_append_x_def)
  note T = Execute_merges_then_writes [OF h1 h2 h3 ex]
  have a: "Store_t ?s' =
      replay (Store_t StoreConstructor)
        (merge_writes (merge_map ?w2) [[65], [66]] (Store_t StoreConstructor) @
         zip (ks ?w2) (vs ?w2))"
    using T by (rule conjunct1)
  have "Store_Get ?s' (Some [65]) = Inr (Some [50], None)"
    using T [THEN conjunct2, THEN conjunct2, THEN conjunct2, rule_format,
        of "[Some [65]]" "Some [65]" "[]" "[Some [49]]" "Some [50]" "[]" "Some [65]"]
    by simp
  then show ?thesis using m1 m2 ex mw by auto
qed

text \<open>
  Claim C2. Let the range over the merge map yield its keys in the order \<open>pre\<close>, then
  \<open>key\<close>, then \<open>post\<close> (any order in which each key comes once), let the chains of \<open>pre\<close> succeed and leave the map \<open>t1\<close>, and let an operator
  of the chain of \<open>key\<close> fail with an error after the operators before it succeeded.
  Then \<^verbatim>\<open>Execute\<close> returns exactly that error; the store is left with the map \<open>t1\<close>, so
  no chain of \<open>post\<close> and no pending write has been applied; and for every key of \<open>pre\<close>
  the result of its chain is in the store (no rollback). The buffers of the batch are
  drained all the same.
\<close>

theorem Execute_merge_failure:
  assumes "tree_inv (Store_t s)" "range_order (merge_map w) (pre @ key # post)"
    and "merge_loop (merge_map w) pre (Store_t s) = Inr (None, t1)"
    and "merge_map w key = Some (c1 @ oper # c2)"
    and "AssociativeMergeChain_Merge c1 (Some key) (lookup t1 (Some key)) = (b1, None)"
    and "oper (Some key) b1 = (b2, Some er)"
  shows "Batch_Execute (pre @ key # post) w s = Inr (Some er, cleared w, s\<lparr>Store_t := t1\<rparr>) \<and>
         (\<forall>p \<in> set pre. \<forall>c. merge_map w p = Some c \<longrightarrow>
            Store_Get (s\<lparr>Store_t := t1\<rparr>) (Some p) =
              Inr (fst (AssociativeMergeChain_Merge c (Some p) (lookup (Store_t s) (Some p))), None))"
proof -
  have dp: "distinct pre" using assms(2) by (simp add: range_order_def)
  have f: "AssociativeMergeChain_Merge (c1 @ oper # c2) (Some key) (lookup t1 (Some key)) =
           (None, Some er)"
    using assms(5,6) by (rule chain_fails_at)
  have "merge_loop (merge_map w) (key # post) t1 = Inr (Some er, t1)"
    using assms(4) f by (simp del: merge_loop.simps(2) add: merge_loop_Cons)
  then have "merge_loop (merge_map w) (pre @ key # post) (Store_t s) = Inr (Some er, t1)"
    using assms(3) by (simp add: merge_loop_append)
  then have a: "Batch_Execute (pre @ key # post) w s = Inr (Some er, cleared w, s\<lparr>Store_t := t1\<rparr>)"
    by (rule Execute_failed)
  have b: "\<forall>p \<in> set pre. \<forall>c. merge_map w p = Some c \<longrightarrow>
            Store_Get (s\<lparr>Store_t := t1\<rparr>) (Some p) =
              Inr (fst (AssociativeMergeChain_Merge c (Some p) (lookup (Store_t s) (Some p))), None)"
  proof (intro ballI allI impI)
    fix p c
    assume p: "p \<in> set pre" and c: "merge_map w p = Some c"
    have "lookup t1 (Some p) =
            fst (AssociativeMergeChain_Merge c (Some p) (lookup (Store_t s) (Some p)))"
      using lookup_merge_loop [OF assms(1) dp assms(3), of "Some p"] p c by simp
    then show "Store_Get (s\<lparr>Store_t := t1\<rparr>) (Some p) =
              Inr (fst (AssociativeMergeChain_Merge c (Some p) (lookup (Store_t s) (Some p))), None)"
      by (simp add: Store_Get_lookup)
  qed
  show ?thesis by (rule conjI [OF a b])
qed

text \<open>
  An instance: the chain of key A appends \<^verbatim>\<open>x\<close>, the chain of key C fails, and a
  write to key D is pending; the range yields A, then C.
\<close>

theorem Execute_merge_failure_witness:
  "Batch_Execute [[65], [67]]
      \<lparr>ks = [Some [68]], vs = [Some [49]], ms = Some [[65] \<mapsto> [op_append_x], [67] \<mapsto> [op_fail]]\<rparr>
      StoreConstructor =
     Inr (Some (OperErr ''merge failed''),
          \<lparr>ks = [], vs = [], ms = Some Map.empty\<rparr>,
          \<lparr>Store_t = [(Some [65], Some [120])]\<rparr>) \<and>
   Store_Get \<lparr>Store_t = [(Some [65], Some [120])]\<rparr> (Some [65]) = Inr (Some [120], None)"
proof -
  let ?wb = "\<lparr>ks = [Some [68]], vs = [Some [49]], ms = Some [[65] \<mapsto> [op_append_x], [67] \<mapsto> [op_fail]]\<rparr>"
  let ?t1 = "[(Some [65], Some [120])]"
  have h1: "tree_inv (Store_t StoreConstructor)"
    by (simp add: StoreConstructor_def TreeNew_def tree_inv_def)
  have h2: "range_order (merge_map ?wb) ([[65]] @ [67] # [])"
    by (auto simp: range_order_def merge_map_def)
  have h3: "merge_loop (merge_map ?wb) [[65]] (Store_t StoreConstructor) = Inr (None, ?t1)"
    by (simp add: merge_map_def StoreConstructor_def TreeNew_def op_append_x_def)
  have h4: "merge_map ?wb [67] = Some ([] @ op_fail # [])" by (simp add: merge_map_def)
  have h5: "AssociativeMergeChain_Merge [] (Some [67]) (lookup ?t1 (Some [67])) = (None, None)"
    by (simp add: lookup_def itemCompare_def)
  have h6: "op_fail (Some [67]) None = (None, Some (OperErr ''merge failed''))"
    by (simp add: op_fail_def)
  show ?thesis
    using Execute_merge_failure [OF h1 h2 h3 h4 h5 h6]
    by (simp add: cleared_def StoreConstructor_def TreeNew_def op_append_x_def lookup_def
        merge_map_def)
qed

text \<open>
  Claim C8. When \<^verbatim>\<open>Execute\<close> returns the nil error, whatever the order in which the
  range yields the keys of the merge map, and no pending write is for a key that has a
  merge chain: the chain returned the nil error on the value that \<^verbatim>\<open>Get\<close> returned for
  the key before (nil when the key was missing), and its result is written back. For
  a value as result the map holds that value for the key and \<^verbatim>\<open>Get\<close> returns it. For a
  nil result the key is deleted: the map has no entry for it, \<^verbatim>\<open>Get\<close> returns absence,
  and an iterator sought to the key stands on a greater key, if on any. \<^verbatim>\<open>Merge\<close> puts
  an operator at the end of the chain of its key, and the chain applies its operators
  from the first to the last: a chain with one more operator at the end gives the
  result of that operator on the result of the chain without it.
\<close>

theorem Execute_folds_chain:
  assumes "tree_inv (Store_t s)" "batch_inv w" "range_order (merge_map w) order"
    and "merge_map w key = Some mc"
    and "Batch_Execute order w s = Inr (None, w', s')"
    and "\<forall>k' \<in> set (ks w). raw k' \<noteq> key"
  shows "(\<exists>cur b. Store_Get s (Some key) = Inr (cur, None) \<and>
           AssociativeMergeChain_Merge mc (Some key) cur = (b, None) \<and>
           Store_Get s' (Some key) = Inr (b, None) \<and>
           Tree_Get (Store_t s') (Some key) = found b \<and>
           (b = None \<longrightarrow>
              (\<forall>kv \<in> set (Store_t s'). itemCompare (Some key) (fst kv) \<noteq> 0) \<and>
              (\<forall>k' v'. then_do (Store_Iterator s' (Some key)) Iterator_Current = Inr (k', v', True)
                  \<longrightarrow> itemCompare (Some key) k' < 0))) \<and>
         (\<forall>w1. Batch_Merge w k0 oper = Inr w1 \<longrightarrow>
            chain_at (ms w1) (raw k0) = chain_at (ms w) (raw k0) @ [oper]) \<and>
         AssociativeMergeChain_Merge (mc @ [oper]) k1 v =
           (case AssociativeMergeChain_Merge mc k1 v of
              (b, Some e) \<Rightarrow> (None, Some e)
            | (b, None) \<Rightarrow>
                (case oper k1 b of (b', Some e) \<Rightarrow> (None, Some e) | (b', None) \<Rightarrow> (b', None)))"
proof -
  have d: "distinct order" and mem: "key \<in> set order"
    using assms(3,4) by (auto simp: range_order_def)
  obtain cur b where cb: "Store_Get s (Some key) = Inr (cur, None)"
      "AssociativeMergeChain_Merge mc (Some key) cur = (b, None)"
      "Store_Get s' (Some key) = Inr (b, None)"
    using Execute_merge_result [OF assms(1,2) d mem assms(4,5,6)] by blast
  have cur: "cur = lookup (Store_t s) (Some key)" using cb(1) by (simp add: Store_Get_lookup)
  have ent: "tree_inv (Store_t s')" "Tree_Get (Store_t s') (Some key) = found b"
    using Execute_merge_entry [OF assms] cb(2) cur by simp_all
  have gone: "\<forall>kv \<in> set (Store_t s'). itemCompare (Some key) (fst kv) \<noteq> 0" if "b = None"
    using ent(2) that Tree_Get_none [of "Store_t s'" "Some key"] by simp
  have it: "\<forall>k' v'. then_do (Store_Iterator s' (Some key)) Iterator_Current = Inr (k', v', True)
                  \<longrightarrow> itemCompare (Some key) k' < 0" if "b = None"
    using Seek_absent_key [OF ent(1) gone [OF that]] by blast
  have a: "\<exists>cur b. Store_Get s (Some key) = Inr (cur, None) \<and>
           AssociativeMergeChain_Merge mc (Some key) cur = (b, None) \<and>
           Store_Get s' (Some key) = Inr (b, None) \<and>
           Tree_Get (Store_t s') (Some key) = found b \<and>
           (b = None \<longrightarrow>
              (\<forall>kv \<in> set (Store_t s'). itemCompare (Some key) (fst kv) \<noteq> 0) \<and>
              (\<forall>k' v'. then_do (Store_Iterator s' (Some key)) Iterator_Current = Inr (k', v', True)
                  \<longrightarrow> itemCompare (Some key) k' < 0))"
    using cb ent(2) gone it by blast
  have b: "\<forall>w1. Batch_Merge w k0 oper = Inr w1 \<longrightarrow>
            chain_at (ms w1) (raw k0) = chain_at (ms w) (raw k0) @ [oper]"
    using Merge_registers by blast
  show ?thesis by (rule conjI [OF a conjI [OF b chain_snoc]])
qed

text \<open>
  The spec's example: on a new batch only \<^verbatim>\<open>Merge(B, op)\<close>, where the operator gives
  \<^verbatim>\<open>"y"\<close> for an absent value; executed on the new store, \<^verbatim>\<open>Get(B)\<close> is \<^verbatim>\<open>"y"\<close>. And a
  chain with a nil result, executed on a store that holds the keys A and B: the entry
  of B is gone.
\<close>

theorem Execute_folds_chain_witness:
  "(\<exists>wb w' s'. Batch_Merge Store_NewBatch (Some [66]) op_default_y = Inr wb \<and>
     Batch_Execute [[66]] wb StoreConstructor = Inr (None, w', s') \<and>
     Store_Get StoreConstructor (Some [66]) = Inr (None, None) \<and>
     Store_Get s' (Some [66]) = Inr (Some [121], None) \<and>
     Tree_Get (Store_t s') (Some [66]) = (bytes_iface (Some [121]), True)) \<and>
   (\<exists>wb w' s'. Batch_Merge Store_NewBatch (Some [66]) op_drop = Inr wb \<and>
     Batch_Execute [[66]] wb \<lparr>Store_t = [(Some [65], Some [49]), (Some [66], Some [50])]\<rparr> =
       Inr (None, w', s') \<and>
     Store_t s' = [(Some [65], Some [49])] \<and>
     Tree_Get (Store_t s') (Some [66]) = (nil_iface, False))"
proof -
  have a: "\<exists>wb w' s'. Batch_Merge Store_NewBatch (Some [66]) op_default_y = Inr wb \<and>
       Batch_Execute [[66]] wb StoreConstructor = Inr (None, w', s') \<and>
       Store_Get StoreConstructor (Some [66]) = Inr (None, None) \<and>
       Store_Get s' (Some [66]) = Inr (Some [121], None) \<and>
       Tree_Get (Store_t s') (Some [66]) = (bytes_iface (Some [121]), True)"
  proof -
    let ?wb = "\<lparr>ks = [], vs = [], ms = Some [[66] \<mapsto> [op_default_y]]\<rparr>"
    let ?s' = "\<lparr>Store_t = [(Some [66], Some [121])]\<rparr>"
    have m: "Batch_Merge Store_NewBatch (Some [66]) op_default_y = Inr ?wb"
      by (simp add: Batch_Merge_def Store_NewBatch_def chain_at_def)
    have ex: "Batch_Execute [[66]] ?wb StoreConstructor = Inr (None, cleared ?wb, ?s')"
      by (simp add: Batch_Execute_def cleared_def StoreConstructor_def TreeNew_def op_default_y_def)
    have h1: "tree_inv (Store_t StoreConstructor)"
      by (simp add: StoreConstructor_def TreeNew_def tree_inv_def)
    have h2: "batch_inv ?wb" by (simp add: batch_inv_def)
    have h3: "merge_map ?wb [66] = Some [op_default_y]" by (simp add: merge_map_def)
    have h4: "\<forall>k' \<in> set (ks ?wb). raw k' \<noteq> [66]" by simp
    have h5: "range_order (merge_map ?wb) [[66]]"
      by (auto simp: range_order_def merge_map_def)
    have g0: "Store_Get StoreConstructor (Some [66]) = Inr (None, None)"
      by (simp add: Store_Get_def StoreConstructor_def TreeNew_def)
    have "Store_Get ?s' (Some [66]) = Inr (Some [121], None) \<and>
          Tree_Get (Store_t ?s') (Some [66]) = (bytes_iface (Some [121]), True)"
      using Execute_folds_chain [OF h1 h2 h5 h3 ex h4, where ?k0.0 = "Some [66]"
          and oper = op_default_y and ?k1.0 = "Some [66]" and v = None] g0
      by (auto simp: op_default_y_def)
    then show ?thesis using m ex g0 by blast
  qed
  have b: "\<exists>wb w' s'. Batch_Merge Store_NewBatch (Some [66]) op_drop = Inr wb \<and>
       Batch_Execute [[66]] wb \<lparr>Store_t = [(Some [65], Some [49]), (Some [66], Some [50])]\<rparr> =
         Inr (None, w', s') \<and>
       Store_t s' = [(Some [65], Some [49])] \<and>
       Tree_Get (Store_t s') (Some [66]) = (nil_iface, False)"
  proof -
    let ?wb = "\<lparr>ks = [], vs = [], ms = Some [[66] \<mapsto> [op_drop]]\<rparr>"
    let ?s = "\<lparr>Store_t = [(Some [65], Some [49]), (Some [66], Some [50])]\<rparr>"
    let ?s' = "\<lparr>Store_t = [(Some [65], Some [49])]\<rparr>"
    have m: "Batch_Merge Store_NewBatch (Some [66]) op_drop = Inr ?wb"
      by (simp add: Batch_Merge_def Store_NewBatch_def chain_at_def)
    have ex: "Batch_Execute [[66]] ?wb ?s = Inr (None, cleared ?wb, ?s')"
      by (simp add: Batch_Execute_def cleared_def op_drop_def itemCompare_def)
    have h1: "tree_inv (Store_t ?s)" by (simp add: tree_inv_def itemCompare_def)
    have h2: "batch_inv ?wb" by (simp add: batch_inv_def)
    have h3: "merge_map ?wb [66] = Some [op_drop]" by (simp add: merge_map_def)
    have h4: "\<forall>k' \<in> set (ks ?wb). raw k' \<noteq> [66]" by simp
    have h5: "range_order (merge_map ?wb) [[66]]"
      by (auto simp: range_order_def merge_map_def)
    have "Tree_Get (Store_t ?s') (Some [66]) = (nil_iface, False)"
      using Execute_folds_chain [OF h1 h2 h5 h3 ex h4, where ?k0.0 = "Some [66]"
          and oper = op_drop and ?k1.0 = "Some [66]" and v = None]
      by (auto simp: op_drop_def)
    then show ?thesis using m ex by auto
  qed
  show ?thesis by (rule conjI [OF a b])
qed

end
